theory Spec2Isabelle
  imports Main "HOL-Library.Multiset"
begin

section \<open>Messages, the platform and the observable trace\<close>

text \<open>
  The engine of \<^verbatim>\<open>discord-message-cleaner.js\<close> consists of the two async functions
  \<^verbatim>\<open>cleanMessages\<close> (the spec's deleteRecentMessages) and \<^verbatim>\<open>cleanUntilMessage\<close> (the spec's
  deleteUntilMessage). Both only read two properties of a message: its identifier and its
  creation timestamp (milliseconds). Identifiers are only compared for equality by the
  engine, so the engine is polymorphic in their type.
\<close>

record 'i message =
  msg_id :: 'i
  createdTimestamp :: int

text \<open>A rejected promise / thrown exception of the platform library; the engine never
  inspects the thrown value, it only logs it.\<close>

datatype js_error = Thrown string

text \<open>
  Everything the engine does to its environment, in the order in which it happens, each call
  together with what it returned:
  \<^item> \<open>Fetch limit before r\<close>: \<^verbatim>\<open>channel.messages.fetch({limit, before})\<close>;
  \<^item> \<open>Now t\<close>: \<^verbatim>\<open>Date.now()\<close> returned \<open>t\<close>;
  \<^item> \<open>BulkDelete msgs r\<close>: \<^verbatim>\<open>channel.bulkDelete(msgs, true)\<close>, where \<open>r\<close> is the collection of
    identifiers the platform reports as deleted (the engine discards it);
  \<^item> \<open>Delete msg r\<close>: \<^verbatim>\<open>msg.delete()\<close>;
  \<^item> \<open>Sleep ms\<close>: \<^verbatim>\<open>await new Promise(resolve => setTimeout(resolve, ms))\<close>;
  \<^item> \<open>ConsoleError s\<close>: \<^verbatim>\<open>console.error(s, err)\<close>;
  \<^item> \<open>Response s r\<close>: \<^verbatim>\<open>responseCallback(s)\<close>;
  \<^item> \<open>Reply s\<close>: \<^verbatim>\<open>message.reply(s)\<close> of the command handler.
\<close>

datatype 'i event =
    Fetch int "'i option" "js_error + 'i message list"
  | Now int
  | BulkDelete "'i message list" "js_error + 'i list"
  | Delete "'i message" "js_error + unit"
  | Sleep int
  | ConsoleError string
  | Response string "js_error + unit"
  | Reply string

text \<open>
  The platform client (discord.js and the JavaScript runtime) is not part of the
  repository; it is a parameter of the model. \<open>'w\<close> is the state of the outside world
  (channel contents, clock, network, ...); every call may change it and may throw.
  A fetched Collection is modelled as the list of its values in iteration order
  (newest first, as the platform returns them).
\<close>

record ('w, 'i) platform =
  fetch :: "int \<Rightarrow> 'i option \<Rightarrow> 'w \<Rightarrow> (js_error + 'i message list) \<times> 'w"
  bulkDelete :: "'i message list \<Rightarrow> 'w \<Rightarrow> (js_error + 'i list) \<times> 'w"
  delete :: "'i message \<Rightarrow> 'w \<Rightarrow> (js_error + unit) \<times> 'w"
  now :: "'w \<Rightarrow> int"
  sleep :: "int \<Rightarrow> 'w \<Rightarrow> 'w"

type_synonym 'w callback = "string \<Rightarrow> 'w \<Rightarrow> (js_error + unit) \<times> 'w"

text \<open>How an invocation of one of the two async functions ended: the try block ran to its
  end (\<open>Returned\<close>), the catch block ran and delivered the error text (\<open>Caught\<close>), or the
  callback threw inside the catch block, so that the promise is rejected (\<open>Escaped\<close>).\<close>

datatype status = Running | Returned | Caught | Escaped js_error

record ('w, 'i) run =
  events :: "'i event list"
  world :: 'w
  deletedCount :: nat
  status :: status

record ('w, 'i) until_run = "('w, 'i) run" +
  targetFound :: bool
  lastMessageId :: "'i option"

section \<open>Rendering the count in the response text\<close>

definition digit :: "nat \<Rightarrow> char" where
  "digit d = (''0123456789'' ! d)"

fun string_of_nat :: "nat \<Rightarrow> string" where
  "string_of_nat n = (if n < 10 then [digit n] else string_of_nat (n div 10) @ [digit (n mod 10)])"

section \<open>The partition-and-delete block\<close>

text \<open>\<^verbatim>\<open>14 * 24 * 60 * 60 * 1000\<close>\<close>

definition twoWeeks :: int where
  "twoWeeks = 14 * 24 * 60 * 60 * 1000"

definition recentOf :: "int \<Rightarrow> 'i message list \<Rightarrow> 'i message list" where
  "recentOf twoWeeksAgo msgs = filter (\<lambda>msg. createdTimestamp msg > twoWeeksAgo) msgs"

definition oldOf :: "int \<Rightarrow> 'i message list \<Rightarrow> 'i message list" where
  "oldOf twoWeeksAgo msgs = filter (\<lambda>msg. createdTimestamp msg \<le> twoWeeksAgo) msgs"

text \<open>
  \<^verbatim>\<open>for (const msg of oldMessages.values()) { try { await msg.delete(); deletedCount++;
  await sleep(100) } catch (deleteErr) { console.error(...) } }\<close>
\<close>

fun deleteEach ::
  "('w, 'i) platform \<Rightarrow> 'i message list \<Rightarrow> nat \<Rightarrow> 'w \<Rightarrow> nat \<times> 'i event list \<times> 'w" where
  "deleteEach P [] cnt w = (cnt, [], w)"
| "deleteEach P (msg # rest) cnt w =
     (case delete P msg w of
        (Inr u, w1) \<Rightarrow>
          (case deleteEach P rest (cnt + 1) (sleep P 100 w1) of
             (n, es, w2) \<Rightarrow> (n, Delete msg (Inr u) # Sleep 100 # es, w2))
      | (Inl deleteErr, w1) \<Rightarrow>
          (case deleteEach P rest cnt w1 of
             (n, es, w2) \<Rightarrow>
               (n, Delete msg (Inl deleteErr) # ConsoleError ''Error deleting older message:'' # es, w2)))"

text \<open>
  The block that the source repeats three times (lines 121-144, 185-206, 212-233):
  read the clock, split by the 14-day cutoff, bulk-delete the recent bucket if it is not
  empty, then delete the old bucket one by one. A throwing bulk-delete leaves the block
  (and the enclosing try) at once; the result is then \<open>Inl\<close>.
\<close>

definition partitionAndDelete ::
  "('w, 'i) platform \<Rightarrow> 'i message list \<Rightarrow> nat \<Rightarrow> 'w \<Rightarrow> (js_error + nat) \<times> 'i event list \<times> 'w" where
  "partitionAndDelete P msgs cnt w =
     (let twoWeeksAgo = now P w - twoWeeks;
          recentMessages = recentOf twoWeeksAgo msgs;
          oldMessages = oldOf twoWeeksAgo msgs
      in if length recentMessages > 0 then
           (case bulkDelete P recentMessages w of
              (Inl err, w1) \<Rightarrow> (Inl err, [Now (now P w), BulkDelete recentMessages (Inl err)], w1)
            | (Inr reported, w1) \<Rightarrow>
                (case deleteEach P oldMessages (cnt + length recentMessages) w1 of
                   (n, es, w2) \<Rightarrow>
                     (Inr n, Now (now P w) # BulkDelete recentMessages (Inr reported) # es, w2)))
         else
           (case deleteEach P oldMessages cnt w of
              (n, es, w2) \<Rightarrow> (Inr n, Now (now P w) # es, w2)))"

section \<open>cleanMessages\<close>

definition errorText :: string where
  "errorText = ''There was an error deleting messages. Some messages may be too old to delete in bulk.''"

text \<open>The catch block of both functions: log, then deliver the error text. If the callback
  throws here, nothing catches it and the promise of the async function is rejected.\<close>

definition catchBlock ::
  "string \<Rightarrow> 'w callback \<Rightarrow> ('w, 'i, 'z) run_scheme \<Rightarrow> ('w, 'i, 'z) run_scheme" where
  "catchBlock logText responseCallback r =
     (case responseCallback errorText (world r) of
        (Inr u, w1) \<Rightarrow>
          r\<lparr>events := events r @ [ConsoleError logText, Response errorText (Inr u)],
            world := w1, status := Caught\<rparr>
      | (Inl e, w1) \<Rightarrow>
          r\<lparr>events := events r @ [ConsoleError logText, Response errorText (Inl e)],
            world := w1, status := Escaped e\<rparr>)"

text \<open>\<^verbatim>\<open>`Successfully deleted ${deletedCount} messages.`\<close>\<close>

definition successText :: "nat \<Rightarrow> string" where
  "successText n = ''Successfully deleted '' @ string_of_nat n @ '' messages.''"

text \<open>The last statement of a try block: deliver \<open>text\<close>; a throwing callback lands in the
  catch block like any other exception.\<close>

definition respond ::
  "string \<Rightarrow> string \<Rightarrow> 'w callback \<Rightarrow> ('w, 'i, 'z) run_scheme \<Rightarrow> ('w, 'i, 'z) run_scheme" where
  "respond logText text responseCallback r =
     (case responseCallback text (world r) of
        (Inr u, w1) \<Rightarrow>
          r\<lparr>events := events r @ [Response text (Inr u)], world := w1, status := Returned\<rparr>
      | (Inl err, w1) \<Rightarrow>
          catchBlock logText responseCallback
            (r\<lparr>events := events r @ [Response text (Inl err)], world := w1\<rparr>))"

definition cleanMessages ::
  "('w, 'i) platform \<Rightarrow> int \<Rightarrow> 'w callback \<Rightarrow> 'w \<Rightarrow> ('w, 'i) run" where
  "cleanMessages P amount responseCallback w =
     (case fetch P amount None w of
        (Inl err, w1) \<Rightarrow>
          catchBlock ''Error deleting messages:'' responseCallback
            \<lparr>events = [Fetch amount None (Inl err)], world = w1, deletedCount = 0, status = Running\<rparr>
      | (Inr fetchedMessages, w1) \<Rightarrow>
          (case partitionAndDelete P fetchedMessages 0 w1 of
             (Inl err, es, w2) \<Rightarrow>
               catchBlock ''Error deleting messages:'' responseCallback
                 \<lparr>events = Fetch amount None (Inr fetchedMessages) # es, world = w2,
                  deletedCount = 0, status = Running\<rparr>
           | (Inr n, es, w2) \<Rightarrow>
               respond ''Error deleting messages:'' (successText n) responseCallback
                 \<lparr>events = Fetch amount None (Inr fetchedMessages) # es, world = w2,
                  deletedCount = n, status = Running\<rparr>))"

section \<open>cleanUntilMessage\<close>

text \<open>\<^verbatim>\<open>messages.get(id)\<close>; \<^verbatim>\<open>messages.has(id)\<close> holds exactly when it is not \<open>None\<close>.\<close>

definition get :: "'i message list \<Rightarrow> 'i \<Rightarrow> 'i message option" where
  "get messages k = find (\<lambda>msg. msg_id msg = k) messages"

text \<open>Lines 178-181: the messages of the target's page that are strictly newer than the
  target by creation timestamp.\<close>

definition newerThan :: "'i \<Rightarrow> 'i message \<Rightarrow> 'i message list \<Rightarrow> 'i message list" where
  "newerThan targetMessageId target messages =
     filter (\<lambda>msg. msg_id msg \<noteq> targetMessageId \<and>
                  createdTimestamp msg > createdTimestamp target) messages"

datatype ('w, 'i) step =
    Continue "('w, 'i) until_run"
  | Break "('w, 'i) until_run"
  | Throw js_error "('w, 'i) until_run"

text \<open>Lines 164-172: the fetch, the test for an empty page and the update of the cursor.
  The result is the fetched page together with the locals as they are when line 175 is
  reached, or the way the iteration ended before that. Line 165 tests \<^verbatim>\<open>lastMessageId\<close> for
  truthiness; identifiers are non-empty strings, so this is the test for \<open>null\<close>.\<close>

definition fetchPage ::
  "('w, 'i) platform \<Rightarrow> ('w, 'i) until_run \<Rightarrow> ('w, 'i) step + 'i message list \<times> ('w, 'i) until_run" where
  "fetchPage P st =
     (case fetch P 100 (lastMessageId st) (world st) of
        (Inl err, w1) \<Rightarrow>
          Inl (Throw err (st\<lparr>events := events st @ [Fetch 100 (lastMessageId st) (Inl err)], world := w1\<rparr>))
      | (Inr messages, w1) \<Rightarrow>
          (let st1 = st\<lparr>events := events st @ [Fetch 100 (lastMessageId st) (Inr messages)], world := w1\<rparr>
           in if length messages = 0 then Inl (Break st1)
              else Inr (messages, st1\<lparr>lastMessageId := Some (msg_id (last messages))\<rparr>)))"

text \<open>Lines 174-236: the rest of the loop body.\<close>

definition processPage ::
  "('w, 'i) platform \<Rightarrow> 'i \<Rightarrow> 'i message list \<Rightarrow> ('w, 'i) until_run \<Rightarrow> ('w, 'i) step" where
  "processPage P targetMessageId messages st =
     (case get messages targetMessageId of
        Some target \<Rightarrow>
          (let st1 = st\<lparr>targetFound := True\<rparr>;
               toDelete = newerThan targetMessageId target messages
           in if length toDelete > 0 then
                (case partitionAndDelete P toDelete (deletedCount st1) (world st1) of
                   (Inl err, es, w2) \<Rightarrow> Throw err (st1\<lparr>events := events st1 @ es, world := w2\<rparr>)
                 | (Inr n, es, w2) \<Rightarrow>
                     Break (st1\<lparr>events := events st1 @ es, world := w2, deletedCount := n\<rparr>))
              else Break st1)
      | None \<Rightarrow>
          (case partitionAndDelete P messages (deletedCount st) (world st) of
             (Inl err, es, w2) \<Rightarrow> Throw err (st\<lparr>events := events st @ es, world := w2\<rparr>)
           | (Inr n, es, w2) \<Rightarrow>
               Continue (st\<lparr>events := events st @ es @ [Sleep 1000], world := sleep P 1000 w2,
                            deletedCount := n\<rparr>)))"

definition iteration ::
  "('w, 'i) platform \<Rightarrow> 'i \<Rightarrow> ('w, 'i) until_run \<Rightarrow> ('w, 'i) step" where
  "iteration P targetMessageId st =
     (case fetchPage P st of
        Inl ended \<Rightarrow> ended
      | Inr (messages, st1) \<Rightarrow> processPage P targetMessageId messages st1)"

text \<open>\<^verbatim>\<open>while (!targetFound) { ... }\<close>. The loop need not terminate for an arbitrary
  platform; not returning is the value \<open>None\<close>. The result is the exception that left the
  loop, if any, and the locals at that moment.\<close>

partial_function (option) untilLoop ::
  "('w, 'i) platform \<Rightarrow> 'i \<Rightarrow> ('w, 'i) until_run \<Rightarrow> (js_error option \<times> ('w, 'i) until_run) option" where
  "untilLoop P targetMessageId st =
     (if targetFound st then Some (None, st)
      else (case iteration P targetMessageId st of
              Continue st1 \<Rightarrow> untilLoop P targetMessageId st1
            | Break st1 \<Rightarrow> Some (None, st1)
            | Throw err st1 \<Rightarrow> Some (Some err, st1)))"

declare untilLoop.simps [code]

definition foundText :: "nat \<Rightarrow> string" where
  "foundText n = ''Successfully deleted '' @ string_of_nat n @ '' messages up to the target message.''"

definition notFoundText :: string where
  "notFoundText = ''Target message not found. Deleted all fetchable messages in the channel.''"

definition finish ::
  "'w callback \<Rightarrow> js_error option \<times> ('w, 'i) until_run \<Rightarrow> ('w, 'i) until_run" where
  "finish responseCallback r =
     (case r of
        (None, st) \<Rightarrow>
          respond ''Error cleaning messages:''
            (if targetFound st then foundText (deletedCount st) else notFoundText) responseCallback st
      | (Some err, st) \<Rightarrow> catchBlock ''Error cleaning messages:'' responseCallback st)"

definition initial :: "'w \<Rightarrow> ('w, 'i) until_run" where
  "initial w = \<lparr>events = [], world = w, deletedCount = 0, status = Running,
                targetFound = False, lastMessageId = None\<rparr>"

definition cleanUntilMessage ::
  "('w, 'i) platform \<Rightarrow> 'i \<Rightarrow> 'w callback \<Rightarrow> 'w \<Rightarrow> ('w, 'i) until_run option" where
  "cleanUntilMessage P targetMessageId responseCallback w =
     map_option (finish responseCallback) (untilLoop P targetMessageId (initial w))"

section \<open>The caller's validation of the amount\<close>

text \<open>
  Lines 362-390, the \<^verbatim>\<open>clean\<close> branch of the prefix-command handler: \<open>amount\<close> is the result
  of \<^verbatim>\<open>parseInt(args[0])\<close> (\<open>None\<close> for NaN), \<open>message\<close> the command message, \<open>confirm\<close> the
  callback of lines 374-386. The effect of \<^verbatim>\<open>message.reply\<close> on the world is not modelled.
\<close>

definition cleanCommand ::
  "('w, 'i) platform \<Rightarrow> 'i message \<Rightarrow> int option \<Rightarrow> 'w callback \<Rightarrow> 'w \<Rightarrow> ('w, 'i) run" where
  "cleanCommand P message amount confirm w =
     (case amount of
        None \<Rightarrow>
          \<lparr>events = [Reply ''Please provide a number between 1 and 100.''], world = w,
           deletedCount = 0, status = Returned\<rparr>
      | Some a \<Rightarrow>
          if a < 1 \<or> a > 100 then
            \<lparr>events = [Reply ''Please provide a number between 1 and 100.''], world = w,
             deletedCount = 0, status = Returned\<rparr>
          else
            (case delete P message w of
               (Inl error, w1) \<Rightarrow>
                 \<lparr>events = [Delete message (Inl error), ConsoleError ''Error in clean command:''],
                  world = w1, deletedCount = 0, status = Caught\<rparr>
             | (Inr u, w1) \<Rightarrow>
                 (let r = cleanMessages P a confirm w1
                  in case status r of
                       Escaped error \<Rightarrow>
                         r\<lparr>events := Delete message (Inr u) # events r @
                                      [ConsoleError ''Error in clean command:''],
                           status := Caught\<rparr>
                     | _ \<Rightarrow> r\<lparr>events := Delete message (Inr u) # events r\<rparr>)))"

section \<open>A reference channel\<close>

text \<open>
  Modelled from the spec: the platform client of section 6 (discord.js, which is not part of
  the repository), as one concrete platform, used to state the properties that speak about a
  channel history and to run the engine on concrete inputs. Identifiers are snowflakes
  (numbers that grow with time). The channel holds its messages newest first.
  \<^item> \<open>fetch\<close> returns the \<open>limit\<close> newest messages older than \<open>before\<close>, and rejects a limit
    outside 1..100;
  \<^item> \<open>bulkDelete(msgs, true)\<close> skips the messages older than 14 days, removes the others and
    reports their identifiers;
  \<^item> \<open>delete\<close> removes the message;
  \<^item> \<open>sleep\<close> advances the clock.
  Any of the three calls may throw instead: \<open>faults w k\<close> says that the \<open>k\<close>-th call throws, so
  that every pattern of failures is some channel.
\<close>

record chan =
  history :: "nat message list"
  clock :: int
  faults :: "nat \<Rightarrow> bool"
  calls :: nat

definition older :: "nat option \<Rightarrow> nat message \<Rightarrow> bool" where
  "older beforeId m = (case beforeId of None \<Rightarrow> True | Some b \<Rightarrow> msg_id m < b)"

definition tick :: "chan \<Rightarrow> chan" where
  "tick w = w\<lparr>calls := calls w + 1\<rparr>"

definition chanFetch :: "int \<Rightarrow> nat option \<Rightarrow> chan \<Rightarrow> (js_error + nat message list) \<times> chan" where
  "chanFetch limit beforeId w =
     (if faults w (calls w) then (Inl (Thrown ''fetch failed''), tick w)
      else if limit < 1 \<or> limit > 100 then (Inl (Thrown ''Invalid Form Body''), tick w)
      else (Inr (take (nat limit) (filter (older beforeId) (history w))), tick w))"

definition chanBulkDelete :: "nat message list \<Rightarrow> chan \<Rightarrow> (js_error + nat list) \<times> chan" where
  "chanBulkDelete msgs w =
     (if faults w (calls w) then (Inl (Thrown ''bulk delete failed''), tick w)
      else (let ids = map msg_id (filter (\<lambda>m. createdTimestamp m > clock w - twoWeeks) msgs)
            in (Inr ids, tick (w\<lparr>history := filter (\<lambda>m. msg_id m \<notin> set ids) (history w)\<rparr>))))"

definition chanDelete :: "nat message \<Rightarrow> chan \<Rightarrow> (js_error + unit) \<times> chan" where
  "chanDelete msg w =
     (if faults w (calls w) then (Inl (Thrown ''delete failed''), tick w)
      else (Inr (), tick (w\<lparr>history := filter (\<lambda>m. msg_id m \<noteq> msg_id msg) (history w)\<rparr>)))"

definition channel :: "(chan, nat) platform" where
  "channel = \<lparr>fetch = chanFetch, bulkDelete = chanBulkDelete, delete = chanDelete,
              now = clock, sleep = (\<lambda>ms w. w\<lparr>clock := clock w + ms\<rparr>)\<rparr>"

text \<open>The callback of the prefix commands swallows its own exceptions (lines 374-386).\<close>

definition quietCallback :: "chan callback" where
  "quietCallback text w = (Inr (), w)"

definition msg :: "nat \<Rightarrow> int \<Rightarrow> nat message" where
  "msg i t = \<lparr>msg_id = i, createdTimestamp = t\<rparr>"

definition demo :: chan where
  "demo = \<lparr>history = [msg 5 2000000000, msg 4 1999999000, msg 3 5, msg 2 4, msg 1 3],
            clock = 2000000100, faults = (\<lambda>k. k = 3), calls = 0\<rparr>"

text \<open>A channel whose bulk delete returns normally but deletes nothing and reports nothing.\<close>

definition silentBulk :: "(chan, nat) platform" where
  "silentBulk = channel\<lparr>bulkDelete := (\<lambda>msgs w. (Inr [], tick w))\<rparr>"

section \<open>Reading the trace\<close>

text \<open>The messages passed to delete calls (bulk or individual), to bulk-delete calls and to
  individual delete calls, in the order of the calls.\<close>

fun deleteArgs :: "'i event \<Rightarrow> 'i message list" where
  "deleteArgs (BulkDelete msgs r) = msgs"
| "deleteArgs (Delete m r) = [m]"
| "deleteArgs e = []"

definition deleteCalls :: "'i event list \<Rightarrow> 'i message list" where
  "deleteCalls es = concat (map deleteArgs es)"

fun bulkArgs :: "'i event \<Rightarrow> 'i message list list" where
  "bulkArgs (BulkDelete msgs r) = [msgs]"
| "bulkArgs e = []"

fun individualArgs :: "'i event \<Rightarrow> 'i message list" where
  "individualArgs (Delete m r) = [m]"
| "individualArgs e = []"

definition bulkCalls :: "'i event list \<Rightarrow> 'i message list list" where
  "bulkCalls es = concat (map bulkArgs es)"

definition individualCalls :: "'i event list \<Rightarrow> 'i message list" where
  "individualCalls es = concat (map individualArgs es)"

text \<open>What a run has been credited for: the size of the bucket passed to each bulk-delete
  call that returned, and one for each individual delete that returned.\<close>

fun credited :: "'i event \<Rightarrow> nat" where
  "credited (BulkDelete msgs (Inr reported)) = length msgs"
| "credited (Delete m (Inr u)) = 1"
| "credited e = 0"

definition counted :: "'i event list \<Rightarrow> nat" where
  "counted es = sum_list (map credited es)"

definition respectsLimit :: "('w, 'i) platform \<Rightarrow> bool" where
  "respectsLimit P =
     (\<forall>limit beforeId w page w'. fetch P limit beforeId w = (Inr page, w') \<longrightarrow> int (length page) \<le> limit)"

fun ageSplitOk :: "int option \<Rightarrow> 'i event list \<Rightarrow> bool" where
  "ageSplitOk cutoff [] = True"
| "ageSplitOk cutoff (Now t # es) = ageSplitOk (Some (t - twoWeeks)) es"
| "ageSplitOk cutoff (BulkDelete msgs r # es) =
     ((case cutoff of None \<Rightarrow> False | Some c \<Rightarrow> \<forall>m\<in>set msgs. createdTimestamp m > c) \<and>
      ageSplitOk cutoff es)"
| "ageSplitOk cutoff (Delete m r # es) =
     ((case cutoff of None \<Rightarrow> False | Some c \<Rightarrow> createdTimestamp m \<le> c) \<and> ageSplitOk cutoff es)"
| "ageSplitOk cutoff (e # es) = ageSplitOk cutoff es"

fun isReport :: "'i event \<Rightarrow> bool" where
  "isReport (ConsoleError s) = True"
| "isReport (Response s r) = True"
| "isReport e = False"

definition edge :: chan where
  "edge = \<lparr>history = [msg 3 1001, msg 2 1000, msg 1 999], clock = twoWeeks + 1000,
            faults = (\<lambda>k. False), calls = 0\<rparr>"

text \<open>The cursor that line 172 has computed after the fetches of a trace, starting from \<open>c\<close>.\<close>

fun cursorsOk :: "'i option \<Rightarrow> 'i event list \<Rightarrow> bool" where
  "cursorsOk c [] = True"
| "cursorsOk c (Fetch limit beforeId (Inr page) # es) =
     (limit = 100 \<and> beforeId = c \<and>
      cursorsOk (if page = [] then c else Some (msg_id (last page))) es)"
| "cursorsOk c (Fetch limit beforeId (Inl err) # es) = (limit = 100 \<and> beforeId = c \<and> cursorsOk c es)"
| "cursorsOk c (e # es) = cursorsOk c es"

fun cursorAfter :: "'i option \<Rightarrow> 'i event list \<Rightarrow> 'i option" where
  "cursorAfter c [] = c"
| "cursorAfter c (Fetch limit beforeId (Inr page) # es) =
     cursorAfter (if page = [] then c else Some (msg_id (last page))) es"
| "cursorAfter c (e # es) = cursorAfter c es"

fun stateOf :: "('w, 'i) step \<Rightarrow> ('w, 'i) until_run" where
  "stateOf (Continue s) = s"
| "stateOf (Break s) = s"
| "stateOf (Throw err s) = s"

fun isFetch :: "'i event \<Rightarrow> bool" where
  "isFetch (Fetch limit beforeId r) = True"
| "isFetch e = False"

fun fetchCursor :: "'i event \<Rightarrow> 'i option list" where
  "fetchCursor (Fetch limit beforeId r) = [beforeId]"
| "fetchCursor e = []"

definition fetchCursors :: "'i event list \<Rightarrow> 'i option list" where
  "fetchCursors es = concat (map fetchCursor es)"


text \<open>The paging contract of \<open>before\<close>: the oldest message of a non-empty page lies strictly
  before the cursor the page was asked for, in a well-founded order \<open>R\<close> on cursors.\<close>

definition descends :: "('i option \<times> 'i option) set \<Rightarrow> ('w, 'i) platform \<Rightarrow> bool" where
  "descends R P =
     (\<forall>c w page w'. fetch P 100 c w = (Inr page, w') \<and> page \<noteq> [] \<longrightarrow>
        (Some (msg_id (last page)), c) \<in> R)"

definition olderCursor :: "(nat option \<times> nat option) set" where
  "olderCursor = {(a, b). \<exists>i. a = Some i \<and> (case b of None \<Rightarrow> True | Some j \<Rightarrow> i < j)}"

text \<open>A fetch or a bulk delete that threw: the exceptions that reach the outer catch block.\<close>

fun aborts :: "'i event \<Rightarrow> bool" where
  "aborts (Fetch limit beforeId (Inl err)) = True"
| "aborts (BulkDelete msgs (Inl err)) = True"
| "aborts e = False"

text \<open>The text of the response that was delivered last, if the trace ends with one.\<close>

fun deliveredText :: "'i event list \<Rightarrow> string option" where
  "deliveredText [] = None"
| "deliveredText [Response text (Inr u)] = Some text"
| "deliveredText [e] = None"
| "deliveredText (e # es) = deliveredText es"



text \<open>What an iteration of \<open>cleanUntilMessage\<close> hands to the partition-and-delete block for a
  fetched page: the messages newer than the target if the page holds the target, the whole page
  otherwise.\<close>

definition batch :: "'i \<Rightarrow> 'i message list \<Rightarrow> 'i message list" where
  "batch t page = (case get page t of Some target \<Rightarrow> newerThan t target page | None \<Rightarrow> page)"

fun dueOf :: "'i \<Rightarrow> 'i event \<Rightarrow> 'i message list" where
  "dueOf t (Fetch limit beforeId (Inr page)) = batch t page"
| "dueOf t e = []"

definition due :: "'i \<Rightarrow> 'i event list \<Rightarrow> 'i message list" where
  "due t es = concat (map (dueOf t) es)"

fun fetchedPage :: "'i event \<Rightarrow> 'i message list" where
  "fetchedPage (Fetch limit beforeId (Inr page)) = page"
| "fetchedPage e = []"

definition fetched :: "'i event list \<Rightarrow> 'i message list" where
  "fetched es = concat (map fetchedPage es)"

fun bulkThrew :: "'i event \<Rightarrow> bool" where
  "bulkThrew (BulkDelete msgs (Inl err)) = True"
| "bulkThrew e = False"


fun failedDelete :: "'i event \<Rightarrow> bool" where
  "failedDelete (Delete m (Inl err)) = True"
| "failedDelete e = False"


fun isPlatformCall :: "'i event \<Rightarrow> bool" where
  "isPlatformCall (Fetch limit beforeId r) = True"
| "isPlatformCall (BulkDelete msgs r) = True"
| "isPlatformCall (Delete m r) = True"
| "isPlatformCall e = False"

text \<open>The result of the last fetch of a trace.\<close>

fun lastFetch ::
  "(js_error + 'i message list) option \<Rightarrow> 'i event list \<Rightarrow> (js_error + 'i message list) option" where
  "lastFetch a [] = a"
| "lastFetch a (Fetch limit beforeId r # es) = lastFetch (Some r) es"
| "lastFetch a (e # es) = lastFetch a es"

definition failures :: "'i event list \<Rightarrow> nat" where
  "failures es = length (filter failedDelete es)"

text \<open>For a run: whether the target was found, the final count, the number of messages in
  all fetched pages, and the number of individual deletes that threw.\<close>

definition tally :: "('w, 'i) until_run option \<Rightarrow> (bool \<times> nat \<times> nat \<times> nat) option" where
  "tally r = map_option (\<lambda>res. (targetFound res, deletedCount res, length (fetched (events res)),
                                 failures (events res))) r"

text \<open>The channel after some calls holds the messages it held before, in the same order,
  except for some of those whose identifier is in \<open>D\<close>.\<close>

definition shrinks :: "nat set \<Rightarrow> chan \<Rightarrow> chan \<Rightarrow> bool" where
  "shrinks D w w' = (\<exists>p. history w' = filter p (history w) \<and> (\<forall>m. msg_id m \<notin> D \<longrightarrow> p m))"

text \<open>A channel history as the platform keeps it: newest first, identifiers strictly
  decreasing, creation timestamps not increasing (two messages may share a millisecond).\<close>

definition wellFormed :: "nat message list \<Rightarrow> bool" where
  "wellFormed h = sorted_wrt (\<lambda>a b. msg_id b < msg_id a \<and> createdTimestamp b \<le> createdTimestamp a) h"

text \<open>The part of a trace that starts with the fetch whose page holds the target.\<close>

fun foundAt :: "'i \<Rightarrow> 'i event \<Rightarrow> bool" where
  "foundAt t (Fetch limit beforeId (Inr page)) = (get page t \<noteq> None)"
| "foundAt t e = False"

definition afterFound :: "'i \<Rightarrow> 'i event list \<Rightarrow> 'i event list" where
  "afterFound t es = dropWhile (\<lambda>e. \<not> foundAt t e) es"

definition deletions :: "('w, 'i) until_run option \<Rightarrow> 'i message list option" where
  "deletions r = map_option (\<lambda>res. deleteCalls (events res)) r"

text \<open>101 messages; the two oldest, 1 and 2, were created in the same millisecond.\<close>

definition sameMillisecond :: chan where
  "sameMillisecond =
     \<lparr>history = map (\<lambda>i. msg i (if i \<le> 2 then 1000 else 1000 + int i)) (rev [1..<102]),
      clock = 5000, faults = (\<lambda>k. False), calls = 0\<rparr>"

section \<open>Basic facts\<close>

lemma deleteCalls_simps [simp]:
  "deleteCalls [] = []"
  "deleteCalls (e # es) = deleteArgs e @ deleteCalls es"
  "deleteCalls (es @ fs) = deleteCalls es @ deleteCalls fs"
  by (simp_all add: deleteCalls_def)

lemma bulkCalls_simps [simp]:
  "bulkCalls [] = []"
  "bulkCalls (e # es) = bulkArgs e @ bulkCalls es"
  "bulkCalls (es @ fs) = bulkCalls es @ bulkCalls fs"
  by (simp_all add: bulkCalls_def)

lemma individualCalls_simps [simp]:
  "individualCalls [] = []"
  "individualCalls (e # es) = individualArgs e @ individualCalls es"
  "individualCalls (es @ fs) = individualCalls es @ individualCalls fs"
  by (simp_all add: individualCalls_def)

lemma counted_simps [simp]:
  "counted [] = 0"
  "counted (e # es) = credited e + counted es"
  "counted (es @ fs) = counted es + counted fs"
  by (simp_all add: counted_def)

lemma deleteEach_calls:
  "deleteEach P ms cnt w = (n, es, w') \<Longrightarrow>
     individualCalls es = ms \<and> bulkCalls es = [] \<and> deleteCalls es = ms \<and> n = cnt + counted es"
proof (induction ms arbitrary: cnt w n es w')
  case Nil
  then show ?case by simp
next
  case (Cons m ms)
  from Cons.prems show ?case
    by (auto split: prod.splits sum.splits dest!: Cons.IH)
qed

lemma partitionAndDelete_calls:
  assumes "partitionAndDelete P msgs cnt w = (r, es, w')"
  shows "bulkCalls es = (if recentOf (now P w - twoWeeks) msgs = [] then [] else [recentOf (now P w - twoWeeks) msgs])"
    and "r = Inr n \<Longrightarrow> individualCalls es = oldOf (now P w - twoWeeks) msgs"
    and "r = Inr n \<Longrightarrow> n = cnt + counted es"
    and "r = Inl e \<Longrightarrow> individualCalls es = [] \<and> counted es = 0"
  using assms
  by (auto simp: partitionAndDelete_def Let_def split: if_splits prod.splits sum.splits dest!: deleteEach_calls)


lemma catchBlock_simps [simp]:
  "bulkCalls (events (catchBlock l cb r)) = bulkCalls (events r)"
  "individualCalls (events (catchBlock l cb r)) = individualCalls (events r)"
  "deleteCalls (events (catchBlock l cb r)) = deleteCalls (events r)"
  "counted (events (catchBlock l cb r)) = counted (events r)"
  "deletedCount (catchBlock l cb r) = deletedCount r"
  by (simp_all add: catchBlock_def split: prod.splits sum.splits)

lemma respond_simps [simp]:
  "bulkCalls (events (respond l t cb r)) = bulkCalls (events r)"
  "individualCalls (events (respond l t cb r)) = individualCalls (events r)"
  "deleteCalls (events (respond l t cb r)) = deleteCalls (events r)"
  "counted (events (respond l t cb r)) = counted (events r)"
  "deletedCount (respond l t cb r) = deletedCount r"
  by (simp_all add: respond_def split: prod.splits sum.splits)

lemma catchBlock_until [simp]:
  "targetFound (catchBlock l cb r) = targetFound r"
  "lastMessageId (catchBlock l cb r) = lastMessageId r"
  by (simp_all add: catchBlock_def split: prod.splits sum.splits)

lemma respond_until [simp]:
  "targetFound (respond l t cb r) = targetFound r"
  "lastMessageId (respond l t cb r) = lastMessageId r"
  by (simp_all add: respond_def split: prod.splits sum.splits)

lemma untilLoop_rule:
  assumes run: "untilLoop P t st = Some r"
    and init: "I st"
    and continue: "\<And>s s'. I s \<Longrightarrow> \<not> targetFound s \<Longrightarrow> iteration P t s = Continue s' \<Longrightarrow> I s'"
    and skipped: "\<And>s. I s \<Longrightarrow> targetFound s \<Longrightarrow> Q (None, s)"
    and break: "\<And>s s'. I s \<Longrightarrow> \<not> targetFound s \<Longrightarrow> iteration P t s = Break s' \<Longrightarrow> Q (None, s')"
    and throw: "\<And>s s' e. I s \<Longrightarrow> \<not> targetFound s \<Longrightarrow> iteration P t s = Throw e s' \<Longrightarrow> Q (Some e, s')"
  shows "Q r"
proof -
  let ?R = "\<lambda>x y. fst (fst x) = P \<longrightarrow> snd (fst x) = t \<longrightarrow> I (snd x) \<longrightarrow> Q y"
  have "?R ((P, t), st) r"
  proof (rule untilLoop.raw_induct [where Pa = ?R, OF _ run])
    fix loop P' t' s y
    assume IH: "\<And>a b c z. loop a b c = Some z \<Longrightarrow> ?R ((a, b), c) z"
      and body: "(if targetFound s then Some (None, s)
                  else case iteration P' t' s of
                         Continue st1 \<Rightarrow> loop P' t' st1
                       | Break st1 \<Rightarrow> Some (None, st1)
                       | Throw err st1 \<Rightarrow> Some (Some err, st1)) = Some y"
    show "?R ((P', t'), s) y"
    proof (simp, intro impI)
      assume eq: "P' = P" "t' = t" and inv: "I s"
      show "Q y"
      proof (cases "targetFound s")
        case True
        with body inv skipped show ?thesis by auto
      next
        case False
        show ?thesis
        proof (cases "iteration P t s")
          case (Continue s')
          with body False eq have "loop P t s' = Some y" by simp
          moreover have "I s'" using continue [OF inv False Continue] .
          ultimately show ?thesis using IH by fastforce
        next
          case (Break s')
          with body False eq break [OF inv False Break] show ?thesis by auto
        next
          case (Throw e s')
          with body False eq throw [OF inv False Throw] show ?thesis by auto
        qed
      qed
    qed
  qed
  with init show ?thesis by simp
qed


lemma fetchPage_cases:
  obtains (FetchThrows) err w1 where
      "fetch P 100 (lastMessageId s) (world s) = (Inl err, w1)"
      "fetchPage P s = Inl (Throw err (s\<lparr>events := events s @ [Fetch 100 (lastMessageId s) (Inl err)], world := w1\<rparr>))"
  | (Exhausted) w1 where
      "fetch P 100 (lastMessageId s) (world s) = (Inr [], w1)"
      "fetchPage P s = Inl (Break (s\<lparr>events := events s @ [Fetch 100 (lastMessageId s) (Inr [])], world := w1\<rparr>))"
  | (Page) page w1 where
      "fetch P 100 (lastMessageId s) (world s) = (Inr page, w1)"
      "page \<noteq> []"
      "fetchPage P s = Inr (page, s\<lparr>events := events s @ [Fetch 100 (lastMessageId s) (Inr page)], world := w1,
                                     lastMessageId := Some (msg_id (last page))\<rparr>)"
proof (cases "fetch P 100 (lastMessageId s) (world s)")
  case (Pair r w1)
  show ?thesis
  proof (cases r)
    case (Inl err)
    with Pair show ?thesis by (intro FetchThrows) (auto simp: fetchPage_def)
  next
    case (Inr page)
    show ?thesis
    proof (cases "page = []")
      case True
      with Pair Inr show ?thesis by (intro Exhausted) (auto simp: fetchPage_def)
    next
      case False
      with Pair Inr show ?thesis by (intro Page [of page w1]) (auto simp: fetchPage_def Let_def)
    qed
  qed
qed

lemma processPage_cases:
  obtains (FoundNothing) target where
      "get page t = Some target" "newerThan t target page = []"
      "processPage P t page s = Break (s\<lparr>targetFound := True\<rparr>)"
  | (FoundThrows) target err es w2 where
      "get page t = Some target" "newerThan t target page \<noteq> []"
      "partitionAndDelete P (newerThan t target page) (deletedCount s) (world s) = (Inl err, es, w2)"
      "processPage P t page s = Throw err (s\<lparr>targetFound := True, events := events s @ es, world := w2\<rparr>)"
  | (FoundDone) target n es w2 where
      "get page t = Some target" "newerThan t target page \<noteq> []"
      "partitionAndDelete P (newerThan t target page) (deletedCount s) (world s) = (Inr n, es, w2)"
      "processPage P t page s =
         Break (s\<lparr>targetFound := True, events := events s @ es, world := w2, deletedCount := n\<rparr>)"
  | (OtherThrows) err es w2 where
      "get page t = None"
      "partitionAndDelete P page (deletedCount s) (world s) = (Inl err, es, w2)"
      "processPage P t page s = Throw err (s\<lparr>events := events s @ es, world := w2\<rparr>)"
  | (OtherDone) n es w2 where
      "get page t = None"
      "partitionAndDelete P page (deletedCount s) (world s) = (Inr n, es, w2)"
      "processPage P t page s =
         Continue (s\<lparr>events := events s @ es @ [Sleep 1000], world := sleep P 1000 w2, deletedCount := n\<rparr>)"
proof (cases "get page t")
  case None
  obtain r es w2 where pd: "partitionAndDelete P page (deletedCount s) (world s) = (r, es, w2)"
    by (metis prod_cases3)
  show ?thesis
  proof (cases r)
    case (Inl err)
    with None pd show ?thesis by (intro OtherThrows [of err es w2]) (auto simp: processPage_def)
  next
    case (Inr n)
    with None pd show ?thesis by (intro OtherDone [of n es w2]) (auto simp: processPage_def)
  qed
next
  case (Some target)
  show ?thesis
  proof (cases "newerThan t target page = []")
    case True
    with Some show ?thesis by (intro FoundNothing [of target]) (auto simp: processPage_def)
  next
    case False
    obtain r es w2 where pd:
      "partitionAndDelete P (newerThan t target page) (deletedCount s) (world s) = (r, es, w2)"
      by (metis prod_cases3)
    show ?thesis
    proof (cases r)
      case (Inl err)
      with Some False pd show ?thesis
        by (intro FoundThrows [of target err es w2]) (auto simp: processPage_def Let_def)
    next
      case (Inr n)
      with Some False pd show ?thesis
        by (intro FoundDone [of target n es w2]) (auto simp: processPage_def Let_def)
    qed
  qed
qed


lemma iteration_cases:
  obtains (FetchThrows) err w1 where
      "fetch P 100 (lastMessageId s) (world s) = (Inl err, w1)"
      "iteration P t s =
         Throw err (s\<lparr>events := events s @ [Fetch 100 (lastMessageId s) (Inl err)], world := w1\<rparr>)"
  | (Exhausted) w1 where
      "fetch P 100 (lastMessageId s) (world s) = (Inr [], w1)"
      "iteration P t s =
         Break (s\<lparr>events := events s @ [Fetch 100 (lastMessageId s) (Inr [])], world := w1\<rparr>)"
  | (FoundNothing) page w1 target where
      "fetch P 100 (lastMessageId s) (world s) = (Inr page, w1)" "page \<noteq> []"
      "get page t = Some target" "newerThan t target page = []"
      "iteration P t s =
         Break (s\<lparr>events := events s @ [Fetch 100 (lastMessageId s) (Inr page)], world := w1,
                  targetFound := True, lastMessageId := Some (msg_id (last page))\<rparr>)"
  | (FoundThrows) page w1 target err es w2 where
      "fetch P 100 (lastMessageId s) (world s) = (Inr page, w1)" "page \<noteq> []"
      "get page t = Some target" "newerThan t target page \<noteq> []"
      "partitionAndDelete P (newerThan t target page) (deletedCount s) w1 = (Inl err, es, w2)"
      "iteration P t s =
         Throw err (s\<lparr>events := events s @ Fetch 100 (lastMessageId s) (Inr page) # es, world := w2,
                      targetFound := True, lastMessageId := Some (msg_id (last page))\<rparr>)"
  | (FoundDone) page w1 target n es w2 where
      "fetch P 100 (lastMessageId s) (world s) = (Inr page, w1)" "page \<noteq> []"
      "get page t = Some target" "newerThan t target page \<noteq> []"
      "partitionAndDelete P (newerThan t target page) (deletedCount s) w1 = (Inr n, es, w2)"
      "iteration P t s =
         Break (s\<lparr>events := events s @ Fetch 100 (lastMessageId s) (Inr page) # es, world := w2,
                  deletedCount := n, targetFound := True, lastMessageId := Some (msg_id (last page))\<rparr>)"
  | (OtherThrows) page w1 err es w2 where
      "fetch P 100 (lastMessageId s) (world s) = (Inr page, w1)" "page \<noteq> []"
      "get page t = None"
      "partitionAndDelete P page (deletedCount s) w1 = (Inl err, es, w2)"
      "iteration P t s =
         Throw err (s\<lparr>events := events s @ Fetch 100 (lastMessageId s) (Inr page) # es, world := w2,
                      lastMessageId := Some (msg_id (last page))\<rparr>)"
  | (OtherDone) page w1 n es w2 where
      "fetch P 100 (lastMessageId s) (world s) = (Inr page, w1)" "page \<noteq> []"
      "get page t = None"
      "partitionAndDelete P page (deletedCount s) w1 = (Inr n, es, w2)"
      "iteration P t s =
         Continue (s\<lparr>events := events s @ Fetch 100 (lastMessageId s) (Inr page) # es @ [Sleep 1000],
                     world := sleep P 1000 w2, deletedCount := n,
                     lastMessageId := Some (msg_id (last page))\<rparr>)"
proof (cases rule: fetchPage_cases [of P s])
  case (FetchThrows err w1)
  then show ?thesis using that(1) by (simp add: iteration_def)
next
  case (Exhausted w1)
  then show ?thesis using that(2) by (simp add: iteration_def)
next
  case (Page page w1)
  let ?s1 = "s\<lparr>events := events s @ [Fetch 100 (lastMessageId s) (Inr page)], world := w1,
                lastMessageId := Some (msg_id (last page))\<rparr>"
  have it: "iteration P t s = processPage P t page ?s1"
    using Page by (simp add: iteration_def)
  show ?thesis
  proof (cases rule: processPage_cases [of page t P ?s1])
    case (FoundNothing target)
    with Page it show ?thesis using that(3) [of page w1 target] by simp
  next
    case (FoundThrows target err es w2)
    with Page it show ?thesis using that(4) [of page w1 target err es w2] by simp
  next
    case (FoundDone target n es w2)
    with Page it show ?thesis using that(5) [of page w1 target n es w2] by simp
  next
    case (OtherThrows err es w2)
    with Page it show ?thesis using that(6) [of page w1 err es w2] by simp
  next
    case (OtherDone n es w2)
    with Page it show ?thesis using that(7) [of page w1 n es w2] by simp
  qed
qed


lemma partitionAndDelete_counted:
  "partitionAndDelete P msgs cnt w = (r, es, w') \<Longrightarrow>
     (case r of Inr n \<Rightarrow> n = cnt + counted es | Inl e \<Rightarrow> counted es = 0)"
  by (auto simp: partitionAndDelete_def Let_def split: if_splits prod.splits sum.splits dest!: deleteEach_calls)

lemma cleanMessages_counted:
  "deletedCount (cleanMessages P amount cb w) = counted (events (cleanMessages P amount cb w))"
  by (auto simp: cleanMessages_def split: prod.splits sum.splits dest!: partitionAndDelete_counted)

lemma untilLoop_counted:
  assumes "untilLoop P t s0 = Some (e, s)" and "deletedCount s0 = counted (events s0)"
  shows "deletedCount s = counted (events s)"
proof -
  let ?I = "\<lambda>s :: ('a, 'b) until_run. deletedCount s = counted (events s)"
  have "(\<lambda>r. ?I (snd r)) (e, s)"
  proof (rule untilLoop_rule [where I = ?I, OF assms(1)])
    show "?I s0" by (rule assms(2))
  next
    fix s s' assume "?I s" "iteration P t s = Continue s'"
    then show "?I s'"
      by (cases rule: iteration_cases [of P s t]) (auto dest!: partitionAndDelete_counted)
  next
    fix s assume "?I s" then show "?I (snd (None, s))" by simp
  next
    fix s s' assume "?I s" "iteration P t s = Break s'"
    then show "?I (snd (None, s'))"
      by (cases rule: iteration_cases [of P s t]) (auto dest!: partitionAndDelete_counted)
  next
    fix s s' e assume "?I s" "iteration P t s = Throw e s'"
    then show "?I (snd (Some e, s'))"
      by (cases rule: iteration_cases [of P s t]) (auto dest!: partitionAndDelete_counted)
  qed
  then show ?thesis by simp
qed

lemma finish_simps [simp]:
  "bulkCalls (events (finish cb r)) = bulkCalls (events (snd r))"
  "individualCalls (events (finish cb r)) = individualCalls (events (snd r))"
  "deleteCalls (events (finish cb r)) = deleteCalls (events (snd r))"
  "counted (events (finish cb r)) = counted (events (snd r))"
  "deletedCount (finish cb r) = deletedCount (snd r)"
  "targetFound (finish cb r) = targetFound (snd r)"
  "lastMessageId (finish cb r) = lastMessageId (snd r)"
  by (simp_all add: finish_def split: prod.splits option.splits)

section \<open>C10: a bulk-delete call that returns is credited with its whole bucket\<close>

text \<open>
  Claim C10. In both operations the final \<open>deletedCount\<close> is the sum, over the bulk-delete
  calls that returned without throwing, of the number of messages passed to the call, plus
  the number of individual deletes that returned. The collection that the platform reports
  as deleted does not enter the count.
\<close>

theorem deletedCount_credits_whole_bucket:
  "deletedCount (cleanMessages P amount cb w) = counted (events (cleanMessages P amount cb w)) \<and>
   (\<forall>res. cleanUntilMessage P t cb w = Some res \<longrightarrow> deletedCount res = counted (events res))"
proof (intro conjI allI impI)
  show "deletedCount (cleanMessages P amount cb w) = counted (events (cleanMessages P amount cb w))"
    by (rule cleanMessages_counted)
next
  fix res assume "cleanUntilMessage P t cb w = Some res"
  then obtain e s where loop: "untilLoop P t (initial w) = Some (e, s)" and res: "res = finish cb (e, s)"
    by (auto simp: cleanUntilMessage_def)
  have "deletedCount s = counted (events s)"
    by (rule untilLoop_counted [OF loop]) (simp add: initial_def)
  with res show "deletedCount res = counted (events res)" by simp
qed

theorem deletedCount_credits_whole_bucket_witness:
  "\<exists>res. cleanUntilMessage silentBulk 7 quietCallback demo = Some res \<and>
         deletedCount res = counted (events res) \<and> deletedCount res = 4 \<and>
         bulkCalls (events res) = [[msg 5 2000000000, msg 4 1999999000]]"
proof -
  have "map_option (\<lambda>r. (deletedCount r, bulkCalls (events r)))
          (cleanUntilMessage silentBulk 7 quietCallback demo) =
        Some (4, [[msg 5 2000000000, msg 4 1999999000]])"
    by code_simp
  then obtain res where r: "cleanUntilMessage silentBulk 7 quietCallback demo = Some res"
    and v: "deletedCount res = 4" "bulkCalls (events res) = [[msg 5 2000000000, msg 4 1999999000]]"
    by auto
  from deletedCount_credits_whole_bucket [of silentBulk 5 quietCallback demo 7] r
  have "deletedCount res = counted (events res)" by blast
  with r v show ?thesis by blast
qed

lemma catchBlock_tail:
  "\<exists>tail. events (catchBlock l cb r) = events r @ tail \<and> list_all isReport tail"
  by (auto simp: catchBlock_def split: prod.splits sum.splits)

lemma respond_tail:
  "\<exists>tail. events (respond l t cb r) = events r @ tail \<and> list_all isReport tail"
proof (cases "cb t (world r)")
  case (Pair res w1)
  show ?thesis
  proof (cases res)
    case (Inl err)
    obtain tail where
      "events (catchBlock l cb (r\<lparr>events := events r @ [Response t (Inl err)], world := w1\<rparr>)) =
         (events r @ [Response t (Inl err)]) @ tail" "list_all isReport tail"
      using catchBlock_tail [of l cb "r\<lparr>events := events r @ [Response t (Inl err)], world := w1\<rparr>"]
      by auto
    then have "events (respond l t cb r) = events r @ (Response t (Inl err) # tail) \<and>
               list_all isReport (Response t (Inl err) # tail)"
      using Pair Inl by (simp add: respond_def)
    then show ?thesis by blast
  next
    case (Inr u)
    with Pair have "events (respond l t cb r) = events r @ [Response t (Inr u)]"
      by (simp add: respond_def)
    then show ?thesis by (intro exI [of _ "[Response t (Inr u)]"]) simp
  qed
qed

lemma finish_tail:
  "\<exists>tail. events (finish cb r) = events (snd r) @ tail \<and> list_all isReport tail"
  using catchBlock_tail respond_tail
  by (auto simp: finish_def split: prod.splits option.splits)

section \<open>C9: the age split is an exact partition with a strict comparison\<close>

text \<open>
  Claim C9. In a partition-and-delete pass over \<open>msgs\<close> with cutoff \<open>now - 14 days\<close>, the recent
  bucket and the aged bucket together are exactly \<open>msgs\<close> and share no message; every
  bulk-delete call of the pass is given the recent bucket; when the bulk call does not throw,
  the individual deletes are exactly the aged bucket; and a message whose timestamp equals the
  cutoff is in the aged bucket and in no bulk-delete call.
\<close>

theorem age_split_is_exact_partition:
  assumes "partitionAndDelete P msgs cnt w = (r, es, w')"
  shows "mset (recentOf (now P w - twoWeeks) msgs) + mset (oldOf (now P w - twoWeeks) msgs) = mset msgs \<and>
         set (recentOf (now P w - twoWeeks) msgs) \<inter> set (oldOf (now P w - twoWeeks) msgs) = {} \<and>
         (\<forall>b \<in> set (bulkCalls es). b = recentOf (now P w - twoWeeks) msgs) \<and>
         (\<forall>n. r = Inr n \<longrightarrow> individualCalls es = oldOf (now P w - twoWeeks) msgs) \<and>
         (\<forall>m \<in> set msgs. createdTimestamp m = now P w - twoWeeks \<longrightarrow>
            m \<in> set (oldOf (now P w - twoWeeks) msgs) \<and> (\<forall>b \<in> set (bulkCalls es). m \<notin> set b))"
proof -
  let ?c = "now P w - twoWeeks"
  have part: "mset (recentOf ?c msgs) + mset (oldOf ?c msgs) = mset msgs"
    unfolding recentOf_def oldOf_def by (induction msgs) auto
  have disj: "set (recentOf ?c msgs) \<inter> set (oldOf ?c msgs) = {}"
    by (auto simp: recentOf_def oldOf_def)
  have bulk: "\<forall>b \<in> set (bulkCalls es). b = recentOf ?c msgs"
    using partitionAndDelete_calls(1) [OF assms] by (simp split: if_splits)
  have indiv: "\<forall>n. r = Inr n \<longrightarrow> individualCalls es = oldOf ?c msgs"
    using partitionAndDelete_calls(2) [OF assms] by blast
  have tie: "\<forall>m \<in> set msgs. createdTimestamp m = ?c \<longrightarrow>
               m \<in> set (oldOf ?c msgs) \<and> (\<forall>b \<in> set (bulkCalls es). m \<notin> set b)"
    using bulk by (auto simp: oldOf_def recentOf_def)
  from part disj bulk indiv tie show ?thesis by blast
qed

theorem age_split_is_exact_partition_witness:
  "fst (partitionAndDelete channel (history edge) 0 edge) = Inr 3 \<and>
   createdTimestamp (msg 2 1000) = now channel edge - twoWeeks \<and>
   individualCalls (fst (snd (partitionAndDelete channel (history edge) 0 edge))) = [msg 2 1000, msg 1 999] \<and>
   bulkCalls (fst (snd (partitionAndDelete channel (history edge) 0 edge))) = [[msg 3 1001]]"
proof -
  let ?X = "partitionAndDelete channel (history edge) 0 edge"
  have pd: "?X = (fst ?X, fst (snd ?X), snd (snd ?X))" by simp
  have r: "fst ?X = Inr 3" by code_simp
  have c: "createdTimestamp (msg 2 1000) = now channel edge - twoWeeks" by code_simp
  have old: "oldOf (now channel edge - twoWeeks) (history edge) = [msg 2 1000, msg 1 999]" by code_simp
  have new: "bulkCalls (fst (snd ?X)) = [[msg 3 1001]]" by code_simp
  from age_split_is_exact_partition [OF pd] r old new c show ?thesis by simp
qed


section \<open>C4: bounds on the calls and the count of cleanMessages\<close>

lemma counted_le_deleteCalls: "counted es \<le> length (deleteCalls es)"
proof (induction es)
  case Nil
  then show ?case by simp
next
  case (Cons e es)
  have "credited e \<le> length (deleteArgs e)"
    by (cases e rule: credited.cases) auto
  with Cons show ?case by simp
qed

lemma individualCalls_le_deleteCalls: "length (individualCalls es) \<le> length (deleteCalls es)"
proof (induction es)
  case Nil
  then show ?case by simp
next
  case (Cons e es)
  have "length (individualArgs e) \<le> length (deleteArgs e)"
    by (cases e) auto
  with Cons show ?case by simp
qed

lemma length_buckets: "length (recentOf c msgs) + length (oldOf c msgs) = length msgs"
  unfolding recentOf_def oldOf_def by (induction msgs) auto

lemma partitionAndDelete_deleteCalls:
  assumes "partitionAndDelete P msgs cnt w = (r, es, w')"
  shows "deleteCalls es =
           (case r of Inr n \<Rightarrow> recentOf (now P w - twoWeeks) msgs @ oldOf (now P w - twoWeeks) msgs
                    | Inl e \<Rightarrow> recentOf (now P w - twoWeeks) msgs)"
  using assms
  by (auto simp: partitionAndDelete_def Let_def split: if_splits prod.splits sum.splits dest!: deleteEach_calls)

lemma partitionAndDelete_bounds:
  assumes "partitionAndDelete P msgs cnt w = (r, es, w')"
  shows "length (bulkCalls es) \<le> 1" and "length (deleteCalls es) \<le> length msgs"
proof -
  show "length (bulkCalls es) \<le> 1"
    using partitionAndDelete_calls(1) [OF assms] by simp
  show "length (deleteCalls es) \<le> length msgs"
    using partitionAndDelete_deleteCalls [OF assms] length_buckets [of "now P w - twoWeeks" msgs]
    by (cases r) auto
qed

text \<open>
  Claim C4. For an amount in 1..100 and a platform whose fetch returns at most \<open>limit\<close>
  messages, \<open>cleanMessages\<close> issues at most one bulk-delete call and at most \<open>amount\<close>
  individual deletes, and its \<open>deletedCount\<close> is at most \<open>amount\<close>, whatever the channel holds
  and whichever calls throw.
\<close>

theorem cleanMessages_call_bounds:
  assumes "1 \<le> amount" and "amount \<le> 100" and "respectsLimit P"
  shows "length (bulkCalls (events (cleanMessages P amount cb w))) \<le> 1 \<and>
         int (length (individualCalls (events (cleanMessages P amount cb w)))) \<le> amount \<and>
         int (deletedCount (cleanMessages P amount cb w)) \<le> amount"
proof (cases "fetch P amount None w")
  case (Pair res w1)
  show ?thesis
  proof (cases res)
    case (Inl err)
    with Pair assms(1) show ?thesis by (simp add: cleanMessages_def)
  next
    case (Inr page)
    with Pair assms(3) have len: "int (length page) \<le> amount"
      unfolding respectsLimit_def by blast
    obtain r es w2 where pd: "partitionAndDelete P page 0 w1 = (r, es, w2)"
      by (metis prod_cases3)
    let ?R = "cleanMessages P amount cb w"
    have ev: "bulkCalls (events ?R) = bulkCalls es" "individualCalls (events ?R) = individualCalls es"
      "counted (events ?R) = counted es"
      using Pair Inr pd by (cases r; simp add: cleanMessages_def)+
    have "length (individualCalls es) \<le> length page" "counted es \<le> length page"
      using partitionAndDelete_bounds(2) [OF pd] individualCalls_le_deleteCalls [of es]
        counted_le_deleteCalls [of es] by linarith+
    with ev len partitionAndDelete_bounds(1) [OF pd] cleanMessages_counted [of P amount cb w]
    show ?thesis by simp
  qed
qed

lemma channel_respectsLimit: "respectsLimit channel"
  by (auto simp: respectsLimit_def channel_def chanFetch_def split: if_splits)

theorem cleanMessages_call_bounds_witness:
  "(1::int) \<le> 5 \<and> (5::int) \<le> 100 \<and> respectsLimit channel \<and>
   length (bulkCalls (events (cleanMessages channel 5 quietCallback demo))) \<le> 1 \<and>
   int (length (individualCalls (events (cleanMessages channel 5 quietCallback demo)))) \<le> 5 \<and>
   int (deletedCount (cleanMessages channel 5 quietCallback demo)) \<le> 5"
  using cleanMessages_call_bounds [of 5 channel quietCallback demo] channel_respectsLimit by simp

section \<open>C5: recent messages only in bulk, aged messages only individually\<close>

lemma ageSplitOk_append:
  "ageSplitOk c es \<Longrightarrow> (\<And>c'. ageSplitOk c' fs) \<Longrightarrow> ageSplitOk c (es @ fs)"
  by (induction c es rule: ageSplitOk.induct) auto

lemma ageSplitOk_reports: "list_all isReport fs \<Longrightarrow> ageSplitOk c fs"
  by (induction c fs rule: ageSplitOk.induct) auto

lemma deleteEach_ageSplitOk:
  "deleteEach P ms cnt w = (n, es, w') \<Longrightarrow> \<forall>m\<in>set ms. createdTimestamp m \<le> c \<Longrightarrow> ageSplitOk (Some c) es"
proof (induction ms arbitrary: cnt w n es w')
  case Nil
  then show ?case by simp
next
  case (Cons m ms)
  from Cons.prems show ?case
    by (auto split: prod.splits sum.splits dest!: Cons.IH)
qed

lemma partitionAndDelete_ageSplitOk:
  assumes "partitionAndDelete P msgs cnt w = (r, es, w')"
  shows "ageSplitOk c es"
proof -
  have old: "\<forall>m\<in>set (oldOf (now P w - twoWeeks) msgs). createdTimestamp m \<le> now P w - twoWeeks"
    by (simp add: oldOf_def)
  have new: "\<forall>m\<in>set (recentOf (now P w - twoWeeks) msgs). createdTimestamp m > now P w - twoWeeks"
    by (simp add: recentOf_def)
  from assms show ?thesis
    using deleteEach_ageSplitOk [OF _ old] new
    by (auto simp: partitionAndDelete_def Let_def split: if_splits prod.splits sum.splits)
qed

lemma cleanMessages_ageSplitOk: "ageSplitOk None (events (cleanMessages P amount cb w))"
proof (cases "fetch P amount None w")
  case (Pair res w1)
  show ?thesis
  proof (cases res)
    case (Inl err)
    obtain tail where "events (cleanMessages P amount cb w) = [Fetch amount None (Inl err)] @ tail"
      "list_all isReport tail"
      using Pair Inl catchBlock_tail [of "''Error deleting messages:''" cb
          "\<lparr>events = [Fetch amount None (Inl err)], world = w1, deletedCount = 0, status = Running\<rparr>"]
      by (auto simp: cleanMessages_def)
    then show ?thesis by (simp add: ageSplitOk_reports)
  next
    case (Inr page)
    obtain r es w2 where pd: "partitionAndDelete P page 0 w1 = (r, es, w2)"
      by (metis prod_cases3)
    have "\<exists>tail. events (cleanMessages P amount cb w) = (Fetch amount None (Inr page) # es) @ tail \<and>
                 list_all isReport tail"
    proof (cases r)
      case (Inl err)
      then show ?thesis
        using Pair Inr pd catchBlock_tail [of "''Error deleting messages:''" cb
          "\<lparr>events = Fetch amount None (Inr page) # es, world = w2, deletedCount = 0, status = Running\<rparr>"]
        by (simp add: cleanMessages_def)
    next
      case r: (Inr n)
      then show ?thesis
        using Pair Inr pd respond_tail [of "''Error deleting messages:''" "successText n" cb
          "\<lparr>events = Fetch amount None (Inr page) # es, world = w2, deletedCount = n, status = Running\<rparr>"]
        by (simp add: cleanMessages_def)
    qed
    then obtain tail where ev: "events (cleanMessages P amount cb w) = (Fetch amount None (Inr page) # es) @ tail"
      and tail: "list_all isReport tail" by blast
    have "ageSplitOk None (Fetch amount None (Inr page) # es)"
      using partitionAndDelete_ageSplitOk [OF pd] by simp
    then show ?thesis
      unfolding ev by (rule ageSplitOk_append) (simp add: ageSplitOk_reports tail)
  qed
qed

lemma untilLoop_ageSplitOk:
  assumes "untilLoop P t s0 = Some (e, s)" and "ageSplitOk None (events s0)"
  shows "ageSplitOk None (events s)"
proof -
  let ?I = "\<lambda>s :: ('a, 'b) until_run. ageSplitOk None (events s)"
  have step: "?I s'" if "?I s" and "iteration P t s = Continue s' \<or> iteration P t s = Break s' \<or>
      iteration P t s = Throw err s'" for s s' err
  proof -
    have "\<exists>fs. events s' = events s @ fs \<and> (\<forall>c. ageSplitOk c fs)"
      using that(2)
      by (cases rule: iteration_cases [of P s t])
         (auto simp: partitionAndDelete_ageSplitOk ageSplitOk_append)
    then obtain fs where fs: "events s' = events s @ fs" "\<And>c. ageSplitOk c fs" by blast
    from that(1) have "ageSplitOk None (events s @ fs)"
      by (rule ageSplitOk_append) (rule fs(2))
    with fs(1) show ?thesis by simp
  qed
  have "(\<lambda>r. ?I (snd r)) (e, s)"
    by (rule untilLoop_rule [where I = ?I, OF assms(1)]) (use assms(2) step in auto)
  then show ?thesis by simp
qed

text \<open>
  Claim C5. In the trace of either operation, every message passed to a bulk-delete call is
  strictly newer than the cutoff (\<open>now - 14 days\<close>, with \<open>now\<close> as read at the start of that
  pass), and every message deleted individually is at or below that cutoff; no delete call
  happens before the clock has been read. So no recent message is ever deleted individually
  and no aged message is ever part of a bulk delete.
\<close>

theorem buckets_go_to_their_own_call:
  "ageSplitOk None (events (cleanMessages P amount cb w)) \<and>
   (\<forall>res. cleanUntilMessage P t cb w = Some res \<longrightarrow> ageSplitOk None (events res))"
proof (intro conjI allI impI)
  show "ageSplitOk None (events (cleanMessages P amount cb w))"
    by (rule cleanMessages_ageSplitOk)
next
  fix res assume "cleanUntilMessage P t cb w = Some res"
  then obtain e s where loop: "untilLoop P t (initial w) = Some (e, s)" and res: "res = finish cb (e, s)"
    by (auto simp: cleanUntilMessage_def)
  have "ageSplitOk None (events s)"
    by (rule untilLoop_ageSplitOk [OF loop]) (simp add: initial_def)
  moreover obtain tail where "events res = events s @ tail" "list_all isReport tail"
    using finish_tail [of cb "(e, s)"] res by auto
  ultimately show "ageSplitOk None (events res)"
    by (simp add: ageSplitOk_append ageSplitOk_reports)
qed


theorem buckets_go_to_their_own_call_witness:
  "\<exists>res. cleanUntilMessage channel 2 quietCallback demo = Some res \<and> ageSplitOk None (events res) \<and>
         deleteCalls (events res) = [msg 5 2000000000, msg 4 1999999000, msg 3 5]"
proof -
  have "map_option (\<lambda>r. deleteCalls (events r)) (cleanUntilMessage channel 2 quietCallback demo) =
        Some [msg 5 2000000000, msg 4 1999999000, msg 3 5]"
    by code_simp
  then obtain res where r: "cleanUntilMessage channel 2 quietCallback demo = Some res"
    and v: "deleteCalls (events res) = [msg 5 2000000000, msg 4 1999999000, msg 3 5]"
    by auto
  from buckets_go_to_their_own_call [of channel 5 quietCallback demo 2] r
  have "ageSplitOk None (events res)" by blast
  with r v show ?thesis by blast
qed



lemma cursorsOk_append:
  "cursorsOk c (es @ fs) = (cursorsOk c es \<and> cursorsOk (cursorAfter c es) fs)"
  by (induction c es rule: cursorsOk.induct) auto

lemma cursorAfter_append:
  "cursorAfter c (es @ fs) = cursorAfter (cursorAfter c es) fs"
  by (induction c es rule: cursorAfter.induct) auto

lemma cursorsOk_noFetch: "\<not> list_ex isFetch es \<Longrightarrow> cursorsOk c es"
  by (induction c es rule: cursorsOk.induct) auto

lemma cursorAfter_noFetch: "\<not> list_ex isFetch es \<Longrightarrow> cursorAfter c es = c"
  by (induction c es rule: cursorAfter.induct) auto

lemma reports_noFetch: "list_all isReport es \<Longrightarrow> \<not> list_ex isFetch es"
  by (induction es) (auto elim: isReport.elims)

lemma deleteEach_noFetch: "deleteEach P ms cnt w = (n, es, w') \<Longrightarrow> \<not> list_ex isFetch es"
proof (induction ms arbitrary: cnt w n es w')
  case Nil
  then show ?case by simp
next
  case (Cons m ms)
  from Cons.prems show ?case
    by (auto split: prod.splits sum.splits dest!: Cons.IH)
qed

lemma partitionAndDelete_noFetch:
  "partitionAndDelete P msgs cnt w = (r, es, w') \<Longrightarrow> \<not> list_ex isFetch es"
  by (auto simp: partitionAndDelete_def Let_def split: if_splits prod.splits sum.splits
      dest!: deleteEach_noFetch)

lemma iteration_fetch_chunk:
  "\<exists>fr fs. events (stateOf (iteration P t s)) = events s @ Fetch 100 (lastMessageId s) fr # fs \<and>
           \<not> list_ex isFetch fs \<and>
           lastMessageId (stateOf (iteration P t s)) =
             (case fr of Inr page \<Rightarrow> if page = [] then lastMessageId s else Some (msg_id (last page))
                       | Inl err \<Rightarrow> lastMessageId s)"
proof (cases rule: iteration_cases [of P s t])
  case (FetchThrows err w1)
  then show ?thesis by (intro exI [of _ "Inl err"] exI [of _ "[]"]) simp
next
  case (Exhausted w1)
  then show ?thesis by (intro exI [of _ "Inr []"] exI [of _ "[]"]) simp
next
  case (FoundNothing page w1 target)
  then show ?thesis by (intro exI [of _ "Inr page"] exI [of _ "[]"]) simp
next
  case (FoundThrows page w1 target err es w2)
  then show ?thesis
    using partitionAndDelete_noFetch [OF FoundThrows(5)]
    by (intro exI [of _ "Inr page"] exI [of _ es]) simp
next
  case (FoundDone page w1 target n es w2)
  then show ?thesis
    using partitionAndDelete_noFetch [OF FoundDone(5)]
    by (intro exI [of _ "Inr page"] exI [of _ es]) simp
next
  case (OtherThrows page w1 err es w2)
  then show ?thesis
    using partitionAndDelete_noFetch [OF OtherThrows(4)]
    by (intro exI [of _ "Inr page"] exI [of _ es]) simp
next
  case (OtherDone page w1 n es w2)
  then show ?thesis
    using partitionAndDelete_noFetch [OF OtherDone(4)]
    by (intro exI [of _ "Inr page"] exI [of _ "es @ [Sleep 1000]"]) simp
qed

lemma iteration_cursorsOk:
  assumes "cursorsOk None (events s)" and "cursorAfter None (events s) = lastMessageId s"
  shows "cursorsOk None (events (stateOf (iteration P t s))) \<and>
         cursorAfter None (events (stateOf (iteration P t s))) = lastMessageId (stateOf (iteration P t s))"
proof -
  obtain fr fs where ev: "events (stateOf (iteration P t s)) = events s @ Fetch 100 (lastMessageId s) fr # fs"
    and fs: "\<not> list_ex isFetch fs"
    and cur: "lastMessageId (stateOf (iteration P t s)) =
             (case fr of Inr page \<Rightarrow> if page = [] then lastMessageId s else Some (msg_id (last page))
                       | Inl err \<Rightarrow> lastMessageId s)"
    using iteration_fetch_chunk [of P t s] by blast
  show ?thesis
  proof (cases fr)
    case (Inl err)
    then show ?thesis
      using assms fs cur
      by (simp add: ev cursorsOk_append cursorAfter_append cursorsOk_noFetch cursorAfter_noFetch)
  next
    case (Inr page)
    then show ?thesis
      using assms fs cur
      by (simp add: ev cursorsOk_append cursorAfter_append cursorsOk_noFetch cursorAfter_noFetch)
  qed
qed

lemma untilLoop_cursorsOk:
  assumes "untilLoop P t s0 = Some (e, s)"
    and "cursorsOk None (events s0)" and "cursorAfter None (events s0) = lastMessageId s0"
  shows "cursorsOk None (events s)"
proof -
  let ?I = "\<lambda>s :: ('a, 'b) until_run.
    cursorsOk None (events s) \<and> cursorAfter None (events s) = lastMessageId s"
  have step: "?I (stateOf (iteration P t s))" if "?I s" for s
    using iteration_cursorsOk [of s P t] that by blast
  have "(\<lambda>r. ?I (snd r)) (e, s)"
  proof (rule untilLoop_rule [where I = ?I, OF assms(1)])
    show "?I s0" using assms(2,3) by simp
  next
    fix s s' assume "?I s" "iteration P t s = Continue s'"
    then show "?I s'" using step [of s] by simp
  next
    fix s assume "?I s" then show "?I (snd (None, s))" by simp
  next
    fix s s' assume "?I s" "iteration P t s = Break s'"
    then show "?I (snd (None, s'))" using step [of s] by simp
  next
    fix s s' e assume "?I s" "iteration P t s = Throw e s'"
    then show "?I (snd (Some e, s'))" using step [of s] by simp
  qed
  then show ?thesis by simp
qed

section \<open>C8: the cursor is fixed before the page is deleted\<close>

text \<open>
  Claim C8. In an iteration of the loop of \<open>cleanUntilMessage\<close> that fetched a non-empty page,
  the cursor \<open>lastMessageId\<close> is the identifier of the last (oldest) message of the page as
  fetched when the processing of the page starts, no delete call has been issued between the
  fetch and that assignment, and the processing of the page, whatever its delete calls do,
  leaves the cursor unchanged. Consequently every fetch of a run is issued with limit 100 and
  with \<open>before\<close> equal to the oldest identifier of the previous non-empty page (unset for the
  first fetch).
\<close>

theorem cursor_fixed_before_deletion:
  "(\<forall>page s1. fetchPage P s = Inr (page, s1) \<longrightarrow>
      page \<noteq> [] \<and> lastMessageId s1 = Some (msg_id (last page)) \<and>
      events s1 = events s @ [Fetch 100 (lastMessageId s) (Inr page)] \<and>
      lastMessageId (stateOf (processPage P t page s1)) = Some (msg_id (last page)) \<and>
      iteration P t s = processPage P t page s1) \<and>
   (\<forall>res. cleanUntilMessage P t cb w = Some res \<longrightarrow> cursorsOk None (events res))"
proof (intro conjI allI impI)
  fix page s1 assume fp: "fetchPage P s = Inr (page, s1)"
  then have s1: "page \<noteq> []" "lastMessageId s1 = Some (msg_id (last page))"
    "events s1 = events s @ [Fetch 100 (lastMessageId s) (Inr page)]"
    by (cases rule: fetchPage_cases [of P s]; auto)+
  show "page \<noteq> []" "lastMessageId s1 = Some (msg_id (last page))"
    "events s1 = events s @ [Fetch 100 (lastMessageId s) (Inr page)]"
    by (rule s1)+
  show "lastMessageId (stateOf (processPage P t page s1)) = Some (msg_id (last page))"
    using s1(2) by (cases rule: processPage_cases [of page t P s1]) auto
  show "iteration P t s = processPage P t page s1"
    using fp by (simp add: iteration_def)
next
  fix res assume "cleanUntilMessage P t cb w = Some res"
  then obtain e s where loop: "untilLoop P t (initial w) = Some (e, s)" and res: "res = finish cb (e, s)"
    by (auto simp: cleanUntilMessage_def)
  have "cursorsOk None (events s)"
    by (rule untilLoop_cursorsOk [OF loop]) (simp_all add: initial_def)
  moreover obtain tail where "events res = events s @ tail" "list_all isReport tail"
    using finish_tail [of cb "(e, s)"] res by auto
  ultimately show "cursorsOk None (events res)"
    by (simp add: cursorsOk_append cursorsOk_noFetch reports_noFetch)
qed

theorem cursor_fixed_before_deletion_witness:
  "\<exists>res. cleanUntilMessage channel 7 quietCallback demo = Some res \<and>
         cursorsOk None (events res) \<and> fetchCursors (events res) = [None, Some 1]"
proof -
  have "map_option (\<lambda>r. fetchCursors (events r)) (cleanUntilMessage channel 7 quietCallback demo) =
        Some [None, Some 1]"
    by code_simp
  then obtain res where r: "cleanUntilMessage channel 7 quietCallback demo = Some res"
    and v: "fetchCursors (events res) = [None, Some 1]"
    by auto
  from cursor_fixed_before_deletion [of channel "initial demo" 7 quietCallback demo] r
  have "cursorsOk None (events res)" by blast
  with r v show ?thesis by blast
qed



lemma deliveredText_snoc [simp]: "deliveredText (es @ [Response reply (Inr u)]) = Some reply"
  by (induction es rule: deliveredText.induct) auto

lemma aborts_reports: "list_all isReport es \<Longrightarrow> \<not> list_ex aborts es"
  by (induction es) (auto elim: isReport.elims)

lemma deleteEach_aborts: "deleteEach P ms cnt w = (n, es, w') \<Longrightarrow> \<not> list_ex aborts es"
proof (induction ms arbitrary: cnt w n es w')
  case Nil
  then show ?case by simp
next
  case (Cons m ms)
  from Cons.prems show ?case
    by (auto split: prod.splits sum.splits dest!: Cons.IH)
qed

lemma partitionAndDelete_aborts:
  "partitionAndDelete P msgs cnt w = (r, es, w') \<Longrightarrow>
     list_ex aborts es = (case r of Inl err \<Rightarrow> True | Inr n \<Rightarrow> False)"
  by (auto simp: partitionAndDelete_def Let_def split: if_splits prod.splits sum.splits
      dest!: deleteEach_aborts)

lemma errorText_not_success [simp]: "successText n \<noteq> errorText" "errorText \<noteq> successText n"
  by (simp_all add: successText_def errorText_def)

lemma errorText_not_until [simp]:
  "foundText n \<noteq> errorText" "notFoundText \<noteq> errorText"
  by (simp_all add: foundText_def errorText_def notFoundText_def)



lemma deliveredText_snoc2 [simp]:
  "deliveredText (es @ [e, Response reply (Inr u)]) = Some reply"
  using deliveredText_snoc [of "es @ [e]" reply u] by simp




lemma untilLoop_aborts:
  assumes "untilLoop P t s0 = Some (e, s)" and "\<not> list_ex aborts (events s0)"
  shows "list_ex aborts (events s) = (e \<noteq> None)"
proof -
  let ?I = "\<lambda>s :: ('a, 'b) until_run. \<not> list_ex aborts (events s)"
  let ?Q = "\<lambda>r :: js_error option \<times> ('a, 'b) until_run. list_ex aborts (events (snd r)) = (fst r \<noteq> None)"
  have "?Q (e, s)"
  proof (rule untilLoop_rule [where I = ?I and Q = ?Q, OF assms(1)])
    show "?I s0" by (rule assms(2))
  next
    fix s s' assume "?I s" "iteration P t s = Continue s'"
    then show "?I s'"
      by (cases rule: iteration_cases [of P s t]) (auto dest!: partitionAndDelete_aborts)
  next
    fix s assume "?I s" then show "?Q (None, s)" by simp
  next
    fix s s' assume "?I s" "iteration P t s = Break s'"
    then show "?Q (None, s')"
      by (cases rule: iteration_cases [of P s t]) (auto dest!: partitionAndDelete_aborts)
  next
    fix s s' e assume "?I s" "iteration P t s = Throw e s'"
    then show "?Q (Some e, s')"
      by (cases rule: iteration_cases [of P s t]) (auto dest!: partitionAndDelete_aborts)
  qed
  then show ?thesis by simp
qed

lemma iteration_Continue_descends:
  assumes "iteration P t s = Continue s'" and "descends R P"
  shows "(lastMessageId s', lastMessageId s) \<in> R"
proof -
  have D: "\<And>c w page w'. fetch P 100 c w = (Inr page, w') \<Longrightarrow> page \<noteq> [] \<Longrightarrow>
             (Some (msg_id (last page)), c) \<in> R"
    using assms(2) unfolding descends_def by blast
  from assms(1) show ?thesis
    by (cases rule: iteration_cases [of P s t]) (auto dest: D)
qed

lemma untilLoop_terminates:
  assumes "wf R" and "descends R P"
  shows "\<exists>r. untilLoop P t s = Some r"
proof -
  have "\<exists>r. untilLoop P t s = Some r" if "lastMessageId s = c" for c s
    using assms(1) that
  proof (induction c arbitrary: s rule: wf_induct_rule)
    case (less c)
    show ?case
    proof (cases "targetFound s")
      case True
      then show ?thesis by (subst untilLoop.simps) simp
    next
      case False
      show ?thesis
      proof (cases "iteration P t s")
        case (Continue s')
        then have "(lastMessageId s', c) \<in> R"
          using iteration_Continue_descends [OF _ assms(2)] less.prems by blast
        then obtain r where "untilLoop P t s' = Some r"
          using less.IH by blast
        with False Continue show ?thesis by (subst untilLoop.simps) simp
      next
        case (Break s')
        with False show ?thesis by (subst untilLoop.simps) simp
      next
        case (Throw err s')
        with False show ?thesis by (subst untilLoop.simps) simp
      qed
    qed
  qed
  then show ?thesis by blast
qed

lemma wf_olderCursor: "wf olderCursor"
proof -
  let ?f = "\<lambda>c :: nat option. case c of None \<Rightarrow> (1 :: nat, 0 :: nat) | Some i \<Rightarrow> (0, i)"
  have "olderCursor \<subseteq> inv_image (less_than <*lex*> less_than) ?f"
    by (auto simp: olderCursor_def split: option.splits)
  moreover have "wf (inv_image (less_than <*lex*> less_than) ?f)"
    by (intro wf_inv_image wf_lex_prod wf_less_than)
  ultimately show ?thesis by (rule wf_subset [rotated])
qed

lemma channel_descends: "descends olderCursor channel"
proof (unfold descends_def, intro allI impI)
  fix c w page w'
  assume a: "fetch channel 100 c w = (Inr page, w') \<and> page \<noteq> []"
  then have page: "page = take 100 (filter (older c) (history w))"
    by (auto simp: channel_def chanFetch_def split: if_splits)
  from a have "last page \<in> set page" by simp
  then have "older c (last page)"
    unfolding page by (auto dest: in_set_takeD)
  then show "(Some (msg_id (last page)), c) \<in> olderCursor"
    by (auto simp: olderCursor_def older_def split: option.splits)
qed


section \<open>C6: no exception leaves the engine\<close>




lemma due_simps [simp]:
  "due t [] = []"
  "due t (e # es) = dueOf t e @ due t es"
  "due t (es @ fs) = due t es @ due t fs"
  by (simp_all add: due_def)

lemma fetched_simps [simp]:
  "fetched [] = []"
  "fetched (e # es) = fetchedPage e @ fetched es"
  "fetched (es @ fs) = fetched es @ fetched fs"
  by (simp_all add: fetched_def)

lemma noFetch_due: "\<not> list_ex isFetch es \<Longrightarrow> due t es = [] \<and> fetched es = []"
proof (induction es)
  case Nil
  then show ?case by simp
next
  case (Cons e es)
  then show ?case by (cases e) auto
qed

lemma reports_quiet:
  "list_all isReport es \<Longrightarrow>
     due t es = [] \<and> fetched es = [] \<and> deleteCalls es = [] \<and> \<not> list_ex bulkThrew es \<and>
     \<not> list_ex aborts es"
proof (induction es)
  case Nil
  then show ?case by simp
next
  case (Cons e es)
  then show ?case by (cases e) auto
qed






lemma quiet_from_tail:
  assumes "\<exists>tail. es' = es @ tail \<and> list_all isReport tail"
  shows "fetched es' = fetched es \<and> due t es' = due t es \<and>
         list_ex bulkThrew es' = list_ex bulkThrew es \<and> list_ex aborts es' = list_ex aborts es"
proof -
  from assms obtain tail where tail: "es' = es @ tail" "list_all isReport tail" by blast
  from reports_quiet [OF tail(2), of t] show ?thesis by (auto simp: tail(1))
qed

lemma catchBlock_quiet [simp]:
  "fetched (events (catchBlock l cb r)) = fetched (events r)"
  "due t (events (catchBlock l cb r)) = due t (events r)"
  "list_ex bulkThrew (events (catchBlock l cb r)) = list_ex bulkThrew (events r)"
  "list_ex aborts (events (catchBlock l cb r)) = list_ex aborts (events r)"
  using quiet_from_tail [OF catchBlock_tail [of l cb r], where t = t] by blast+

lemma respond_quiet [simp]:
  "fetched (events (respond l x cb r)) = fetched (events r)"
  "due t (events (respond l x cb r)) = due t (events r)"
  "list_ex bulkThrew (events (respond l x cb r)) = list_ex bulkThrew (events r)"
  "list_ex aborts (events (respond l x cb r)) = list_ex aborts (events r)"
  using quiet_from_tail [OF respond_tail [of l x cb r], where t = t] by blast+

lemma finish_quiet [simp]:
  "fetched (events (finish cb r)) = fetched (events (snd r))"
  "due t (events (finish cb r)) = due t (events (snd r))"
  "list_ex bulkThrew (events (finish cb r)) = list_ex bulkThrew (events (snd r))"
  "list_ex aborts (events (finish cb r)) = list_ex aborts (events (snd r))"
  using quiet_from_tail [OF finish_tail [of cb r], where t = t] by blast+




lemma batch_Nil [simp]: "batch t [] = []"
  by (simp add: batch_def get_def)




section \<open>C7: a failed individual delete does not stop anything\<close>





section \<open>C3: the amount is validated by the caller, not by cleanMessages\<close>

text \<open>
  Claim C3 says that \<open>cleanMessages\<close> itself rejects an amount outside 1..100 before any
  platform call. It does not: with amount 101 the first thing it does is the fetch with limit
  101 (which the reference channel then rejects, so that the run ends in the catch block).
\<close>

theorem cleanMessages_revalidates_counterexample:
  "(100 :: int) < 101 \<and>
   filter isPlatformCall (events (cleanMessages channel 101 quietCallback demo)) =
     [Fetch 101 None (Inl (Thrown ''Invalid Form Body''))]"
  by code_simp

text \<open>
  Claim C3 as amended. \<open>cleanMessages\<close> performs no validation: for every amount its first
  action is the fetch call with that amount as limit. The range 1..100 is enforced by the
  caller: the prefix-command handler answers an amount that is not a number or lies outside
  1..100 with a reply and calls neither the engine nor the platform.
\<close>

theorem amount_validated_by_caller:
  "(\<exists>tail. events (cleanMessages P amount cb w) = Fetch amount None (fst (fetch P amount None w)) # tail) \<and>
   ((\<forall>a. parsed = Some a \<longrightarrow> a < 1 \<or> 100 < a) \<longrightarrow>
      events (cleanCommand P message parsed cb w) = [Reply ''Please provide a number between 1 and 100.''])"
proof (intro conjI impI)
  show "\<exists>tail. events (cleanMessages P amount cb w) = Fetch amount None (fst (fetch P amount None w)) # tail"
  proof (cases "fetch P amount None w")
    case (Pair res w1)
    show ?thesis
    proof (cases res)
      case (Inl err)
      with Pair show ?thesis
        using catchBlock_tail [of "''Error deleting messages:''" cb
            "\<lparr>events = [Fetch amount None (Inl err)], world = w1, deletedCount = 0, status = Running\<rparr>"]
        by (auto simp: cleanMessages_def)
    next
      case (Inr page)
      obtain r es w2 where pd: "partitionAndDelete P page 0 w1 = (r, es, w2)"
        by (metis prod_cases3)
      show ?thesis
      proof (cases r)
        case (Inl err)
        with Pair Inr pd show ?thesis
          using catchBlock_tail [of "''Error deleting messages:''" cb
            "\<lparr>events = Fetch amount None (Inr page) # es, world = w2, deletedCount = 0, status = Running\<rparr>"]
          by (auto simp: cleanMessages_def)
      next
        case r: (Inr n)
        with Pair Inr pd show ?thesis
          using respond_tail [of "''Error deleting messages:''" "successText n" cb
            "\<lparr>events = Fetch amount None (Inr page) # es, world = w2, deletedCount = n, status = Running\<rparr>"]
          by (auto simp: cleanMessages_def)
      qed
    qed
  qed
next
  assume "\<forall>a. parsed = Some a \<longrightarrow> a < 1 \<or> 100 < a"
  then show "events (cleanCommand P message parsed cb w) = [Reply ''Please provide a number between 1 and 100.'']"
    by (cases parsed) (auto simp: cleanCommand_def)
qed

theorem amount_validated_by_caller_witness:
  "events (cleanCommand channel (msg 9 0) (Some 101) quietCallback demo) =
     [Reply ''Please provide a number between 1 and 100.''] \<and>
   (\<exists>tail. events (cleanMessages channel 101 quietCallback demo) =
      Fetch 101 None (fst (fetch channel 101 None demo)) # tail)"
  using amount_validated_by_caller [of channel 101 quietCallback demo "Some 101" "msg 9 0"] by simp



lemma failures_simps [simp]:
  "failures [] = 0"
  "failures (e # es) = (if failedDelete e then 1 else 0) + failures es"
  "failures (es @ fs) = failures es + failures fs"
  by (simp_all add: failures_def)

lemma lastFetch_append: "lastFetch a (es @ fs) = lastFetch (lastFetch a es) fs"
  by (induction a es rule: lastFetch.induct) auto

lemma lastFetch_noFetch: "\<not> list_ex isFetch es \<Longrightarrow> lastFetch a es = a"
  by (induction a es rule: lastFetch.induct) auto

lemma reports_failures: "list_all isReport es \<Longrightarrow> failures es = 0"
proof (induction es)
  case Nil
  then show ?case by simp
next
  case (Cons e es)
  then show ?case by (cases e) auto
qed

lemma deleteEach_failures:
  "deleteEach P ms cnt w = (n, es, w') \<Longrightarrow> n + failures es = cnt + length ms"
proof (induction ms arbitrary: cnt w n es w')
  case Nil
  then show ?case by simp
next
  case (Cons m ms)
  from Cons.prems show ?case
    by (auto split: prod.splits sum.splits dest!: Cons.IH)
qed

lemma partitionAndDelete_failures:
  assumes "partitionAndDelete P msgs cnt w = (Inr n, es, w')"
  shows "n + failures es = cnt + length msgs"
proof -
  let ?c = "now P w - twoWeeks"
  have len: "length (recentOf ?c msgs) + length (oldOf ?c msgs) = length msgs"
    by (rule length_buckets)
  show ?thesis
  proof (cases "recentOf ?c msgs = []")
    case True
    then obtain es1 where "deleteEach P (oldOf ?c msgs) cnt w = (n, es1, w')" "es = Now (now P w) # es1"
      using assms by (auto simp: partitionAndDelete_def Let_def split: prod.splits)
    with deleteEach_failures [of P "oldOf ?c msgs" cnt w n es1 w'] len True show ?thesis by simp
  next
    case False
    then obtain reported w1 es1 where
      "deleteEach P (oldOf ?c msgs) (cnt + length (recentOf ?c msgs)) w1 = (n, es1, w')"
      "es = Now (now P w) # BulkDelete (recentOf ?c msgs) (Inr reported) # es1"
      using assms by (auto simp: partitionAndDelete_def Let_def split: prod.splits sum.splits)
    with deleteEach_failures [of P "oldOf ?c msgs" "cnt + length (recentOf ?c msgs)" w1 n es1 w'] len
    show ?thesis by simp
  qed
qed

lemma iteration_tally:
  assumes "deletedCount s + failures (events s) = length (fetched (events s))"
  shows "case iteration P t s of
           Continue s' \<Rightarrow> deletedCount s' + failures (events s') = length (fetched (events s'))
         | Break s' \<Rightarrow> \<not> targetFound s' \<longrightarrow>
               deletedCount s' + failures (events s') = length (fetched (events s')) \<and>
               lastFetch None (events s') = Some (Inr [])
         | Throw err s' \<Rightarrow> True"
proof (cases rule: iteration_cases [of P s t])
  case (FetchThrows err w1)
  then show ?thesis by simp
next
  case (Exhausted w1)
  with assms show ?thesis by (simp add: lastFetch_append)
next
  case (FoundNothing page w1 target)
  then show ?thesis by simp
next
  case (FoundThrows page w1 target err es w2)
  then show ?thesis by simp
next
  case (FoundDone page w1 target n es w2)
  then show ?thesis by simp
next
  case (OtherThrows page w1 err es w2)
  then show ?thesis by simp
next
  case (OtherDone page w1 n es w2)
  have "fetched es = []"
    using partitionAndDelete_noFetch [OF OtherDone(4)] by (simp add: noFetch_due)
  with OtherDone assms partitionAndDelete_failures [OF OtherDone(4)] show ?thesis by simp
qed

lemma untilLoop_tally:
  assumes "untilLoop P t s0 = Some (e, s)" and "events s0 = []" and "deletedCount s0 = 0"
    and "\<not> targetFound s0"
  shows "e = None \<and> \<not> targetFound s \<longrightarrow>
           deletedCount s + failures (events s) = length (fetched (events s)) \<and>
           lastFetch None (events s) = Some (Inr [])"
proof -
  let ?I = "\<lambda>s :: ('a, 'b) until_run.
    \<not> targetFound s \<and> deletedCount s + failures (events s) = length (fetched (events s))"
  let ?Q = "\<lambda>r :: js_error option \<times> ('a, 'b) until_run. fst r = None \<and> \<not> targetFound (snd r) \<longrightarrow>
    deletedCount (snd r) + failures (events (snd r)) = length (fetched (events (snd r))) \<and>
    lastFetch None (events (snd r)) = Some (Inr [])"
  have "?Q (e, s)"
  proof (rule untilLoop_rule [where I = ?I and Q = ?Q, OF assms(1)])
    show "?I s0" using assms(2,3,4) by simp
  next
    fix s s' assume "?I s" "\<not> targetFound s" "iteration P t s = Continue s'"
    then show "?I s'"
      using iteration_tally [of s P t] by (cases rule: iteration_cases [of P s t]) auto
  next
    fix s assume "?I s" "targetFound s" then show "?Q (None, s)" by simp
  next
    fix s s' assume "?I s" "iteration P t s = Break s'"
    then show "?Q (None, s')" using iteration_tally [of s P t] by simp
  next
    fix s s' e assume "?I s" "iteration P t s = Throw e s'"
    then show "?Q (Some e, s')" by simp
  qed
  then show ?thesis by simp
qed


subsection \<open>How the calls change the reference channel\<close>

lemma shrinks_refl [simp]: "shrinks D w w"
  unfolding shrinks_def by (intro exI [of _ "\<lambda>m. True"]) simp

lemma shrinks_trans: "shrinks D w w1 \<Longrightarrow> shrinks D w1 w2 \<Longrightarrow> shrinks D w w2"
proof -
  assume "shrinks D w w1" "shrinks D w1 w2"
  then obtain p q where p: "history w1 = filter p (history w)" "\<forall>m. msg_id m \<notin> D \<longrightarrow> p m"
    and q: "history w2 = filter q (history w1)" "\<forall>m. msg_id m \<notin> D \<longrightarrow> q m"
    unfolding shrinks_def by blast
  then have "history w2 = filter (\<lambda>m. p m \<and> q m) (history w) \<and> (\<forall>m. msg_id m \<notin> D \<longrightarrow> p m \<and> q m)"
    by simp
  then show "shrinks D w w2" unfolding shrinks_def by blast
qed

lemma shrinks_mono: "shrinks D w w' \<Longrightarrow> D \<subseteq> E \<Longrightarrow> shrinks E w w'"
  unfolding shrinks_def by blast

lemma shrinks_history_eq: "history w' = history w \<Longrightarrow> shrinks D w w'"
  unfolding shrinks_def by (intro exI [of _ "\<lambda>m. True"]) simp

lemma shrinks_subset: "shrinks D w w' \<Longrightarrow> set (history w') \<subseteq> set (history w)"
  unfolding shrinks_def by auto

lemma shrinks_keeps: "shrinks D w w' \<Longrightarrow> m \<in> set (history w) \<Longrightarrow> msg_id m \<notin> D \<Longrightarrow> m \<in> set (history w')"
  unfolding shrinks_def by auto

lemma chanFetch_history:
  assumes "fetch channel limit c w = (r, w1)"
  shows "history w1 = history w"
    and "r = Inr page \<Longrightarrow> limit = 100 \<Longrightarrow> page = take 100 (filter (older c) (history w))"
  using assms by (auto simp: channel_def chanFetch_def tick_def split: if_splits)

lemma chanSleep_history [simp]: "history (sleep channel ms w) = history w"
  by (simp add: channel_def)

lemma chanDelete_shrinks:
  assumes "delete channel m w = (r, w1)"
  shows "shrinks {msg_id m} w w1"
proof (cases "faults w (calls w)")
  case True
  with assms have "history w1 = history w"
    by (auto simp: channel_def chanDelete_def tick_def)
  then show ?thesis by (rule shrinks_history_eq)
next
  case False
  with assms have "history w1 = filter (\<lambda>x. msg_id x \<noteq> msg_id m) (history w)"
    by (auto simp: channel_def chanDelete_def tick_def)
  then show ?thesis unfolding shrinks_def
    by (intro exI [of _ "\<lambda>x. msg_id x \<noteq> msg_id m"]) simp
qed

lemma chanBulkDelete_shrinks:
  assumes "bulkDelete channel msgs w = (r, w1)"
  shows "shrinks (msg_id ` set msgs) w w1"
proof (cases "faults w (calls w)")
  case True
  with assms have "history w1 = history w"
    by (auto simp: channel_def chanBulkDelete_def tick_def)
  then show ?thesis by (rule shrinks_history_eq)
next
  case False
  let ?ids = "map msg_id (filter (\<lambda>m. createdTimestamp m > clock w - twoWeeks) msgs)"
  from False assms have "history w1 = filter (\<lambda>m. msg_id m \<notin> set ?ids) (history w)"
    by (auto simp: channel_def chanBulkDelete_def tick_def Let_def)
  moreover have "\<forall>m. msg_id m \<notin> msg_id ` set msgs \<longrightarrow> msg_id m \<notin> set ?ids"
    by auto
  ultimately show ?thesis unfolding shrinks_def
    by (intro exI [of _ "\<lambda>m. msg_id m \<notin> set ?ids"]) simp
qed

lemma deleteEach_shrinks:
  "deleteEach channel ms cnt w = (n, es, w') \<Longrightarrow> shrinks (msg_id ` set ms) w w'"
proof (induction ms arbitrary: cnt w n es w')
  case Nil
  then show ?case by simp
next
  case (Cons m ms)
  obtain r w1 where d: "delete channel m w = (r, w1)" by (metis surj_pair)
  have first: "shrinks (msg_id ` set (m # ms)) w w1"
    using chanDelete_shrinks [OF d] by (rule shrinks_mono) simp
  show ?case
  proof (cases r)
    case (Inl err)
    with d Cons.prems obtain es1 where "deleteEach channel ms cnt w1 = (n, es1, w')"
      by (auto split: prod.splits)
    then have "shrinks (msg_id ` set ms) w1 w'"
      by (rule Cons.IH)
    then have "shrinks (msg_id ` set (m # ms)) w1 w'"
      by (rule shrinks_mono) auto
    with first show ?thesis by (rule shrinks_trans)
  next
    case (Inr u)
    with d Cons.prems obtain es1 where
      "deleteEach channel ms (cnt + 1) (sleep channel 100 w1) = (n, es1, w')"
      by (auto split: prod.splits)
    then have "shrinks (msg_id ` set ms) (sleep channel 100 w1) w'"
      by (rule Cons.IH)
    then have "shrinks (msg_id ` set (m # ms)) (sleep channel 100 w1) w'"
      by (rule shrinks_mono) auto
    moreover have "shrinks (msg_id ` set (m # ms)) w1 (sleep channel 100 w1)"
      by (rule shrinks_history_eq) simp
    ultimately show ?thesis using first by (blast intro: shrinks_trans)
  qed
qed

lemma partitionAndDelete_shrinks:
  assumes "partitionAndDelete channel msgs cnt w = (r, es, w')"
  shows "shrinks (msg_id ` set msgs) w w'"
proof -
  let ?c = "now channel w - twoWeeks"
  have sub: "msg_id ` set (recentOf ?c msgs) \<subseteq> msg_id ` set msgs"
    "msg_id ` set (oldOf ?c msgs) \<subseteq> msg_id ` set msgs"
    by (auto simp: recentOf_def oldOf_def)
  show ?thesis
  proof (cases "recentOf ?c msgs = []")
    case True
    then obtain n es1 where "deleteEach channel (oldOf ?c msgs) cnt w = (n, es1, w')"
      using assms by (auto simp: partitionAndDelete_def Let_def split: prod.splits)
    then show ?thesis using deleteEach_shrinks sub(2) shrinks_mono by blast
  next
    case False
    obtain br w1 where b: "bulkDelete channel (recentOf ?c msgs) w = (br, w1)" by (metis surj_pair)
    have first: "shrinks (msg_id ` set msgs) w w1"
      using chanBulkDelete_shrinks [OF b] sub(1) by (rule shrinks_mono)
    show ?thesis
    proof (cases br)
      case (Inl err)
      with b False assms have "w' = w1"
        by (auto simp: partitionAndDelete_def Let_def)
      with first show ?thesis by simp
    next
      case (Inr reported)
      with b False assms obtain n es1 where
        "deleteEach channel (oldOf ?c msgs) (cnt + length (recentOf ?c msgs)) w1 = (n, es1, w')"
        by (auto simp: partitionAndDelete_def Let_def split: prod.splits)
      then have "shrinks (msg_id ` set msgs) w1 w'"
        using deleteEach_shrinks sub(2) shrinks_mono by blast
      with first show ?thesis by (rule shrinks_trans)
    qed
  qed
qed

lemma get_None_iff: "get page t = None \<longleftrightarrow> t \<notin> msg_id ` set page"
  by (auto simp: get_def find_None_iff)

lemma get_SomeD: "get page t = Some target \<Longrightarrow> target \<in> set page \<and> msg_id target = t"
  by (auto simp: get_def find_Some_iff)

lemma untilLoop_absent_target:
  assumes "untilLoop channel t s0 = Some (e, s)" and "t \<notin> msg_id ` set (history (world s0))"
    and "\<not> targetFound s0"
  shows "\<not> targetFound s"
proof -
  let ?I = "\<lambda>s :: (chan, nat) until_run. \<not> targetFound s \<and> t \<notin> msg_id ` set (history (world s))"
  have step: "?I (stateOf (iteration channel t s))" if "?I s" for s
  proof (cases rule: iteration_cases [of channel s t])
    case (FetchThrows err w1)
    with that chanFetch_history(1) [OF FetchThrows(1)] show ?thesis by simp
  next
    case (Exhausted w1)
    with that chanFetch_history(1) [OF Exhausted(1)] show ?thesis by simp
  next
    case (FoundNothing page w1 target)
    have "page = take 100 (filter (older (lastMessageId s)) (history (world s)))"
      using chanFetch_history(2) [OF FoundNothing(1)] by simp
    then have "set page \<subseteq> set (history (world s))" by (auto dest: in_set_takeD)
    with get_SomeD [OF FoundNothing(3)] that show ?thesis by auto
  next
    case (FoundThrows page w1 target err es w2)
    have "page = take 100 (filter (older (lastMessageId s)) (history (world s)))"
      using chanFetch_history(2) [OF FoundThrows(1)] by simp
    then have "set page \<subseteq> set (history (world s))" by (auto dest: in_set_takeD)
    with get_SomeD [OF FoundThrows(3)] that show ?thesis by auto
  next
    case (FoundDone page w1 target n es w2)
    have "page = take 100 (filter (older (lastMessageId s)) (history (world s)))"
      using chanFetch_history(2) [OF FoundDone(1)] by simp
    then have "set page \<subseteq> set (history (world s))" by (auto dest: in_set_takeD)
    with get_SomeD [OF FoundDone(3)] that show ?thesis by auto
  next
    case (OtherThrows page w1 err es w2)
    have "set (history w2) \<subseteq> set (history w1)"
      using partitionAndDelete_shrinks [OF OtherThrows(4)] by (rule shrinks_subset)
    with OtherThrows that chanFetch_history(1) [OF OtherThrows(1)] show ?thesis by auto
  next
    case (OtherDone page w1 n es w2)
    have "set (history w2) \<subseteq> set (history w1)"
      using partitionAndDelete_shrinks [OF OtherDone(4)] by (rule shrinks_subset)
    with OtherDone that chanFetch_history(1) [OF OtherDone(1)] show ?thesis by auto
  qed
  have "(\<lambda>r. \<not> targetFound (snd r)) (e, s)"
  proof (rule untilLoop_rule [where I = ?I, OF assms(1)])
    show "?I s0" using assms(2,3) by simp
  next
    fix s s' assume "?I s" "iteration channel t s = Continue s'"
    then show "?I s'" using step [of s] by simp
  next
    fix s assume "?I s" "targetFound s" then show "\<not> targetFound (snd (None, s))" by simp
  next
    fix s s' assume "?I s" "iteration channel t s = Break s'"
    then show "\<not> targetFound (snd (None, s'))" using step [of s] by simp
  next
    fix s s' e assume "?I s" "iteration channel t s = Throw e s'"
    then show "\<not> targetFound (snd (Some e, s'))" using step [of s] by simp
  qed
  then show ?thesis by simp
qed


lemma finish_tally [simp]:
  "failures (events (finish cb r)) = failures (events (snd r))"
  "lastFetch a (events (finish cb r)) = lastFetch a (events (snd r))"
proof -
  obtain tail where tail: "events (finish cb r) = events (snd r) @ tail" "list_all isReport tail"
    using finish_tail [of cb r] by blast
  show "failures (events (finish cb r)) = failures (events (snd r))"
    using tail by (simp add: reports_failures)
  show "lastFetch a (events (finish cb r)) = lastFetch a (events (snd r))"
    using tail by (simp add: lastFetch_append lastFetch_noFetch reports_noFetch)
qed

section \<open>C2: a run that never finds the target\<close>

text \<open>
  Claim C2 says that a run on a channel without the target ends with \<open>deletedCount\<close> equal to
  the number of messages in all fetched pages. On the channel \<open>demo\<close> (five messages, none
  with identifier 7, the delete of one aged message fails) the run for target 7 ends with
  \<open>targetFound = false\<close> after fetching five messages, but with \<open>deletedCount = 4\<close>: line 226
  does not count a delete that threw.
\<close>

theorem count_equals_encountered_counterexample:
  "7 \<notin> set (map msg_id (history demo)) \<and>
   tally (cleanUntilMessage channel 7 quietCallback demo) = Some (False, 4, 5, 1)"
  by code_simp

text \<open>
  Claim C2 as amended. On every reference channel whose history does not contain the target
  identifier, and for every pattern of failing calls, \<open>cleanUntilMessage\<close> returns after
  finitely many iterations with \<open>targetFound = false\<close>. If no fetch and no bulk delete threw,
  the last fetch returned zero messages and \<open>deletedCount\<close> is the number of messages in all
  fetched pages minus the number of individual deletes that threw.
\<close>

theorem absent_target_run:
  assumes "t \<notin> msg_id ` set (history w)"
  shows "\<exists>res. cleanUntilMessage channel t cb w = Some res \<and> \<not> targetFound res \<and>
           (\<not> list_ex aborts (events res) \<longrightarrow>
              lastFetch None (events res) = Some (Inr []) \<and>
              deletedCount res + failures (events res) = length (fetched (events res)))"
proof -
  obtain e s where loop: "untilLoop channel t (initial w) = Some (e, s)"
    using untilLoop_terminates [OF wf_olderCursor channel_descends, of t "initial w"] by auto
  have nf: "\<not> targetFound s"
    by (rule untilLoop_absent_target [OF loop]) (use assms in \<open>simp_all add: initial_def\<close>)
  have ab: "list_ex aborts (events s) = (e \<noteq> None)"
    by (rule untilLoop_aborts [OF loop]) (simp add: initial_def)
  have tl: "e = None \<and> \<not> targetFound s \<longrightarrow>
           deletedCount s + failures (events s) = length (fetched (events s)) \<and>
           lastFetch None (events s) = Some (Inr [])"
    by (rule untilLoop_tally [OF loop]) (simp_all add: initial_def)
  let ?res = "finish cb (e, s)"
  have "cleanUntilMessage channel t cb w = Some ?res"
    using loop by (simp add: cleanUntilMessage_def)
  moreover have "\<not> targetFound ?res" using nf by simp
  moreover have "\<not> list_ex aborts (events ?res) \<longrightarrow>
              lastFetch None (events ?res) = Some (Inr []) \<and>
              deletedCount ?res + failures (events ?res) = length (fetched (events ?res))"
    using ab nf tl by simp
  ultimately show ?thesis by blast
qed

theorem absent_target_run_witness:
  "7 \<notin> msg_id ` set (history demo) \<and>
   (\<exists>res. cleanUntilMessage channel 7 quietCallback demo = Some res \<and> \<not> targetFound res \<and>
          lastFetch None (events res) = Some (Inr []) \<and>
          deletedCount res + failures (events res) = length (fetched (events res)) \<and>
          failures (events res) = 1)"
proof -
  have absent: "7 \<notin> msg_id ` set (history demo)"
    by (simp add: demo_def msg_def)
  have ev: "map_option (\<lambda>r. (list_ex aborts (events r), failures (events r)))
          (cleanUntilMessage channel 7 quietCallback demo) = Some (False, 1)"
    by code_simp
  from absent_target_run [OF absent, of quietCallback] obtain res where
    r: "cleanUntilMessage channel 7 quietCallback demo = Some res" "\<not> targetFound res"
    and c: "\<not> list_ex aborts (events res) \<longrightarrow>
              lastFetch None (events res) = Some (Inr []) \<and>
              deletedCount res + failures (events res) = length (fetched (events res))"
    by blast
  from ev r(1) have "\<not> list_ex aborts (events res)" "failures (events res) = 1" by simp_all
  with absent r c show ?thesis by simp
qed



subsection \<open>Well-formed histories\<close>

lemma sorted_wrt_total:
  "sorted_wrt R xs \<Longrightarrow> x \<in> set xs \<Longrightarrow> y \<in> set xs \<Longrightarrow> x = y \<or> R x y \<or> R y x"
  by (induction xs) auto

lemma wellFormed_filter: "wellFormed h \<Longrightarrow> wellFormed (filter p h)"
  unfolding wellFormed_def by (rule sorted_wrt_filter)

lemma wellFormed_same_id:
  assumes "wellFormed h" "x \<in> set h" "y \<in> set h" "msg_id x = msg_id y"
  shows "x = y"
  using sorted_wrt_total [OF assms(1) [unfolded wellFormed_def] assms(2,3)] assms(4) by auto

lemma wellFormed_newer:
  assumes "wellFormed h" "x \<in> set h" "y \<in> set h" "createdTimestamp x < createdTimestamp y"
  shows "msg_id x < msg_id y"
  using sorted_wrt_total [OF assms(1) [unfolded wellFormed_def] assms(2,3)] assms(4) by auto

lemma wellFormed_beyond_page:
  assumes "wellFormed f" "x \<in> set f" "x \<notin> set (take n f)" "m \<in> set (take n f)"
  shows "msg_id x < msg_id m \<and> createdTimestamp x \<le> createdTimestamp m"
proof -
  have "sorted_wrt (\<lambda>a b. msg_id b < msg_id a \<and> createdTimestamp b \<le> createdTimestamp a)
          (take n f @ drop n f)"
    using assms(1) by (simp add: wellFormed_def)
  moreover have "x \<in> set (drop n f)"
    using assms(2,3) by (metis Un_iff append_take_drop_id set_append)
  ultimately show ?thesis
    using assms(4) unfolding sorted_wrt_append by blast
qed

lemma partitionAndDelete_deleteCalls_subset:
  assumes "partitionAndDelete P msgs cnt w = (r, es, w')"
  shows "set (deleteCalls es) \<subseteq> set msgs"
  using partitionAndDelete_deleteCalls [OF assms]
  by (cases r) (auto simp: recentOf_def oldOf_def)

lemma afterFound_append_none:
  "\<not> list_ex (foundAt t) es \<Longrightarrow> afterFound t (es @ fs) = afterFound t fs"
  unfolding afterFound_def by (induction es) auto

lemma afterFound_none: "\<not> list_ex (foundAt t) es \<Longrightarrow> afterFound t es = []"
  unfolding afterFound_def by (induction es) auto

lemma noFetch_foundAt: "\<not> list_ex isFetch es \<Longrightarrow> \<not> list_ex (foundAt t) es"
proof (induction es)
  case Nil
  then show ?case by simp
next
  case (Cons e es)
  then show ?case by (cases e) auto
qed

lemma afterFound_report_tail:
  assumes "list_all isReport tail"
  shows "deleteCalls (afterFound t (es @ tail)) = deleteCalls (afterFound t es)"
proof -
  have quiet: "deleteCalls tail = []" "\<not> list_ex (foundAt t) tail"
    using reports_quiet [OF assms, of t] noFetch_foundAt [OF reports_noFetch [OF assms]] by auto
  show ?thesis
  proof (cases "list_ex (foundAt t) es")
    case True
    then have "afterFound t (es @ tail) = afterFound t es @ tail"
      unfolding afterFound_def by (induction es) auto
    with quiet(1) show ?thesis by simp
  next
    case False
    then show ?thesis
      using quiet by (simp add: afterFound_append_none afterFound_none)
  qed
qed


subsection \<open>One iteration on a channel that holds the target\<close>

lemma iteration_spares_target:
  fixes T :: "nat message"
  assumes wf: "wellFormed (history (world s))" and mem: "T \<in> set (history (world s))"
    and cur: "\<forall>c. lastMessageId s = Some c \<longrightarrow> msg_id T < c"
  shows "\<exists>es. events (stateOf (iteration channel (msg_id T) s)) = events s @ es \<and>
           (\<forall>m\<in>set (deleteCalls es). msg_id T < msg_id m \<and> createdTimestamp T \<le> createdTimestamp m) \<and>
           (\<forall>m\<in>set (deleteCalls (afterFound (msg_id T) es)). createdTimestamp T < createdTimestamp m) \<and>
           (\<forall>s'. iteration channel (msg_id T) s = Continue s' \<longrightarrow>
               \<not> list_ex (foundAt (msg_id T)) es \<and> wellFormed (history (world s')) \<and>
               T \<in> set (history (world s')) \<and> (\<forall>c. lastMessageId s' = Some c \<longrightarrow> msg_id T < c))"
proof -
  let ?t = "msg_id T"
  let ?h = "history (world s)"
  let ?f = "filter (older (lastMessageId s)) ?h"
  let ?ok = "\<lambda>m. msg_id T < msg_id m \<and> createdTimestamp T \<le> createdTimestamp m"
  have Tf: "T \<in> set ?f"
    using mem cur by (auto simp: older_def split: option.splits)
  have wff: "wellFormed ?f" using wf by (rule wellFormed_filter)
  have sub: "set (take 100 ?f) \<subseteq> set ?h" by (auto dest: in_set_takeD)
  show ?thesis
  proof (cases rule: iteration_cases [of channel s ?t])
    case (FetchThrows err w1)
    then show ?thesis
      by (intro exI [of _ "[Fetch 100 (lastMessageId s) (Inl err)]"]) (simp add: afterFound_def)
  next
    case (Exhausted w1)
    then show ?thesis
      by (intro exI [of _ "[Fetch 100 (lastMessageId s) (Inr [])]"]) (simp add: afterFound_def get_def)
  next
    case (FoundNothing page w1 target)
    then show ?thesis
      by (intro exI [of _ "[Fetch 100 (lastMessageId s) (Inr page)]"]) (simp add: afterFound_def)
  next
    case (FoundThrows page w1 target err es w2)
    have page: "page = take 100 ?f" using chanFetch_history(2) [OF FoundThrows(1)] by simp
    have "target = T"
      using get_SomeD [OF FoundThrows(3)] sub mem wellFormed_same_id [OF wf, of target T]
      unfolding page by blast
    have del: "\<forall>m\<in>set (deleteCalls es). createdTimestamp T < createdTimestamp m \<and> msg_id T < msg_id m"
    proof
      fix m assume "m \<in> set (deleteCalls es)"
      then have "m \<in> set (newerThan ?t target page)"
        using partitionAndDelete_deleteCalls_subset [OF FoundThrows(5)] by blast
      then have m: "m \<in> set ?h" "createdTimestamp T < createdTimestamp m"
        using sub \<open>target = T\<close> unfolding page by (auto simp: newerThan_def)
      with wellFormed_newer [OF wf mem m(1)] show "createdTimestamp T < createdTimestamp m \<and> msg_id T < msg_id m"
        by simp
    qed
    have af: "afterFound ?t (Fetch 100 (lastMessageId s) (Inr page) # es) =
                Fetch 100 (lastMessageId s) (Inr page) # es"
      using FoundThrows(3) by (simp add: afterFound_def)
    from FoundThrows(6) del show ?thesis
      by (intro exI [of _ "Fetch 100 (lastMessageId s) (Inr page) # es"]) (simp add: af less_imp_le)
  next
    case (FoundDone page w1 target n es w2)
    have page: "page = take 100 ?f" using chanFetch_history(2) [OF FoundDone(1)] by simp
    have "target = T"
      using get_SomeD [OF FoundDone(3)] sub mem wellFormed_same_id [OF wf, of target T]
      unfolding page by blast
    have del: "\<forall>m\<in>set (deleteCalls es). createdTimestamp T < createdTimestamp m \<and> msg_id T < msg_id m"
    proof
      fix m assume "m \<in> set (deleteCalls es)"
      then have "m \<in> set (newerThan ?t target page)"
        using partitionAndDelete_deleteCalls_subset [OF FoundDone(5)] by blast
      then have m: "m \<in> set ?h" "createdTimestamp T < createdTimestamp m"
        using sub \<open>target = T\<close> unfolding page by (auto simp: newerThan_def)
      with wellFormed_newer [OF wf mem m(1)] show "createdTimestamp T < createdTimestamp m \<and> msg_id T < msg_id m"
        by simp
    qed
    have af: "afterFound ?t (Fetch 100 (lastMessageId s) (Inr page) # es) =
                Fetch 100 (lastMessageId s) (Inr page) # es"
      using FoundDone(3) by (simp add: afterFound_def)
    from FoundDone(6) del show ?thesis
      by (intro exI [of _ "Fetch 100 (lastMessageId s) (Inr page) # es"]) (simp add: af less_imp_le)
  next
    case (OtherThrows page w1 err es w2)
    have page: "page = take 100 ?f" using chanFetch_history(2) [OF OtherThrows(1)] by simp
    have Tpage: "T \<notin> set (take 100 ?f)"
      using OtherThrows(3) unfolding get_None_iff page by blast
    have del: "\<forall>m\<in>set (deleteCalls es). ?ok m"
    proof
      fix m assume "m \<in> set (deleteCalls es)"
      then have "m \<in> set (take 100 ?f)"
        using partitionAndDelete_deleteCalls_subset [OF OtherThrows(4)] unfolding page by blast
      then show "?ok m" using wellFormed_beyond_page [OF wff Tf Tpage] by blast
    qed
    have nf: "\<not> list_ex (foundAt ?t) (Fetch 100 (lastMessageId s) (Inr page) # es)"
      using OtherThrows(3) noFetch_foundAt [OF partitionAndDelete_noFetch [OF OtherThrows(4)], of ?t]
      by simp
    from OtherThrows(5) del show ?thesis
      by (intro exI [of _ "Fetch 100 (lastMessageId s) (Inr page) # es"])
         (simp add: afterFound_none [OF nf])
  next
    case (OtherDone page w1 n es w2)
    have page: "page = take 100 ?f" using chanFetch_history(2) [OF OtherDone(1)] by simp
    have h1: "history w1 = ?h" using chanFetch_history(1) [OF OtherDone(1)] .
    have Tpage: "T \<notin> set (take 100 ?f)"
      using OtherDone(3) unfolding get_None_iff page by blast
    have newer: "\<forall>m\<in>set page. ?ok m"
      using wellFormed_beyond_page [OF wff Tf Tpage] unfolding page by blast
    have del: "\<forall>m\<in>set (deleteCalls es). ?ok m"
      using partitionAndDelete_deleteCalls_subset [OF OtherDone(4)] newer by blast
    let ?es = "Fetch 100 (lastMessageId s) (Inr page) # es @ [Sleep 1000]"
    have nf: "\<not> list_ex (foundAt ?t) ?es"
      using OtherDone(3) noFetch_foundAt [OF partitionAndDelete_noFetch [OF OtherDone(4)], of ?t]
      by simp
    have sh: "shrinks (msg_id ` set page) w1 w2"
      using partitionAndDelete_shrinks [OF OtherDone(4)] .
    then obtain p where p: "history w2 = filter p (history w1)"
      unfolding shrinks_def by blast
    have wf2: "wellFormed (history w2)"
      unfolding p h1 using wf by (rule wellFormed_filter)
    have "msg_id T \<notin> msg_id ` set page" using newer by auto
    then have T2: "T \<in> set (history w2)"
      using shrinks_keeps [OF sh, of T] mem h1 by simp
    have "last page \<in> set page" using OtherDone(2) by simp
    then have cur2: "msg_id T < msg_id (last page)" using newer by blast
    from OtherDone(5) del wf2 T2 cur2 nf show ?thesis
      by (intro exI [of _ ?es]) (simp add: afterFound_none [OF nf])
  qed
qed


lemma untilLoop_spares_target:
  fixes T :: "nat message"
  assumes loop: "untilLoop channel (msg_id T) s0 = Some (e, s)"
    and init: "events s0 = []" "lastMessageId s0 = None"
    and wf: "wellFormed (history (world s0))" and mem: "T \<in> set (history (world s0))"
  shows "(\<forall>m\<in>set (deleteCalls (events s)). msg_id T < msg_id m \<and> createdTimestamp T \<le> createdTimestamp m) \<and>
         (\<forall>m\<in>set (deleteCalls (afterFound (msg_id T) (events s))). createdTimestamp T < createdTimestamp m)"
proof -
  let ?t = "msg_id T"
  let ?safe = "\<lambda>es. \<forall>m\<in>set (deleteCalls es). msg_id T < msg_id m \<and> createdTimestamp T \<le> createdTimestamp m"
  let ?strict = "\<lambda>es. \<forall>m\<in>set (deleteCalls (afterFound ?t es)). createdTimestamp T < createdTimestamp m"
  let ?I = "\<lambda>s :: (chan, nat) until_run.
    wellFormed (history (world s)) \<and> T \<in> set (history (world s)) \<and>
    (\<forall>c. lastMessageId s = Some c \<longrightarrow> ?t < c) \<and> ?safe (events s) \<and> \<not> list_ex (foundAt ?t) (events s)"
  let ?Q = "\<lambda>r :: js_error option \<times> (chan, nat) until_run. ?safe (events (snd r)) \<and> ?strict (events (snd r))"
  have ended: "?safe (events (stateOf (iteration channel ?t s))) \<and>
               ?strict (events (stateOf (iteration channel ?t s)))" if "?I s" for s
  proof -
    from that iteration_spares_target [of s T] obtain es where
      es: "events (stateOf (iteration channel ?t s)) = events s @ es" "?safe es" "?strict es"
      by blast
    have "afterFound ?t (events s @ es) = afterFound ?t es"
      using that by (simp add: afterFound_append_none)
    with es that show ?thesis by auto
  qed
  have "?Q (e, s)"
  proof (rule untilLoop_rule [where I = ?I and Q = ?Q, OF loop])
    show "?I s0" using init wf mem by simp
  next
    fix s s' assume I: "?I s" and it: "iteration channel ?t s = Continue s'"
    from I iteration_spares_target [of s T] obtain es where
      es: "events (stateOf (iteration channel ?t s)) = events s @ es" "?safe es"
        "\<forall>s'. iteration channel ?t s = Continue s' \<longrightarrow>
               \<not> list_ex (foundAt ?t) es \<and> wellFormed (history (world s')) \<and>
               T \<in> set (history (world s')) \<and> (\<forall>c. lastMessageId s' = Some c \<longrightarrow> ?t < c)"
      by blast
    from es(3) it have "\<not> list_ex (foundAt ?t) es" "wellFormed (history (world s'))"
      "T \<in> set (history (world s'))" "\<forall>c. lastMessageId s' = Some c \<longrightarrow> ?t < c"
      by blast+
    moreover have "events s' = events s @ es" using es(1) it by simp
    ultimately show "?I s'" using I es(2) by auto
  next
    fix s assume "?I s" "targetFound s"
    then show "?Q (None, s)" by (simp add: afterFound_none)
  next
    fix s s' assume "?I s" "iteration channel ?t s = Break s'"
    then show "?Q (None, s')" using ended [of s] by simp
  next
    fix s s' e assume "?I s" "iteration channel ?t s = Throw e s'"
    then show "?Q (Some e, s')" using ended [of s] by simp
  qed
  then show ?thesis by simp
qed

section \<open>C1: what cleanUntilMessage deletes when the channel holds the target\<close>

text \<open>
  Claim C1 says that no message with a creation timestamp less than or equal to the target's
  is ever passed to a delete call, also on the pages fetched before the target's page. On the
  channel \<open>sameMillisecond\<close> the target, message 1, is the 101st newest message, and message 2 was
  created in the same millisecond. The first page holds messages 101 down to 2 and not the
  target, so lines 212-233 delete all of it, message 2 included.
\<close>

theorem only_strictly_newer_deleted_counterexample:
  "wellFormed (history sameMillisecond) \<and> msg 1 1000 \<in> set (history sameMillisecond) \<and>
   createdTimestamp (msg 2 1000) \<le> createdTimestamp (msg 1 1000) \<and>
   deletions (cleanUntilMessage channel 1 quietCallback sameMillisecond) =
     Some (take 100 (history sameMillisecond)) \<and>
   msg 2 1000 \<in> set (take 100 (history sameMillisecond))"
  by code_simp

text \<open>
  Claim C1 as amended. On every reference channel with a well-formed history that holds the
  target, and for every pattern of failing calls, \<open>cleanUntilMessage\<close> returns, and every message
  it passed to a delete call, bulk or individual, has an identifier strictly greater than the
  target's and a creation timestamp not less than the target's: the target itself and every
  message with a strictly smaller timestamp are never deleted. From the fetch of the target's
  page on, every message passed to a delete call has a creation timestamp strictly greater
  than the target's. A message created in the same millisecond as the target is therefore
  spared on the target's page, but deleted when it lies on an earlier page.
\<close>

theorem only_newer_deleted:
  assumes "wellFormed (history w)" and "target \<in> set (history w)"
  shows "\<exists>res. cleanUntilMessage channel (msg_id target) cb w = Some res \<and>
           (\<forall>m\<in>set (deleteCalls (events res)).
              msg_id target < msg_id m \<and> createdTimestamp target \<le> createdTimestamp m) \<and>
           (\<forall>m\<in>set (deleteCalls (afterFound (msg_id target) (events res))).
              createdTimestamp target < createdTimestamp m)"
proof -
  obtain e s where loop: "untilLoop channel (msg_id target) (initial w) = Some (e, s)"
    using untilLoop_terminates [OF wf_olderCursor channel_descends, of "msg_id target" "initial w"] by auto
  have safe: "(\<forall>m\<in>set (deleteCalls (events s)).
                 msg_id target < msg_id m \<and> createdTimestamp target \<le> createdTimestamp m) \<and>
              (\<forall>m\<in>set (deleteCalls (afterFound (msg_id target) (events s))).
                 createdTimestamp target < createdTimestamp m)"
    by (rule untilLoop_spares_target [OF loop]) (use assms in \<open>simp_all add: initial_def\<close>)
  let ?res = "finish cb (e, s)"
  obtain tail where tail: "events ?res = events s @ tail" "list_all isReport tail"
    using finish_tail [of cb "(e, s)"] by auto
  have "deleteCalls (afterFound (msg_id target) (events ?res)) =
        deleteCalls (afterFound (msg_id target) (events s))"
    unfolding tail(1) by (rule afterFound_report_tail [OF tail(2)])
  moreover have "deleteCalls (events ?res) = deleteCalls (events s)" by simp
  moreover have "cleanUntilMessage channel (msg_id target) cb w = Some ?res"
    using loop by (simp add: cleanUntilMessage_def)
  ultimately show ?thesis using safe by (intro exI [of _ ?res]) simp
qed

theorem only_newer_deleted_witness:
  "wellFormed (history demo) \<and> msg 2 4 \<in> set (history demo) \<and>
   (\<exists>res. cleanUntilMessage channel 2 quietCallback demo = Some res \<and>
          deleteCalls (events res) = [msg 5 2000000000, msg 4 1999999000, msg 3 5] \<and>
          list_all (\<lambda>m. 2 < msg_id m \<and> 4 < createdTimestamp m) (deleteCalls (events res)))"
proof -
  have wf: "wellFormed (history demo)" by code_simp
  have mem: "msg 2 4 \<in> set (history demo)" by code_simp
  have id: "msg_id (msg 2 4) = 2" "createdTimestamp (msg 2 4) = 4" by (simp_all add: msg_def)
  have ev: "deletions (cleanUntilMessage channel 2 quietCallback demo) =
        Some [msg 5 2000000000, msg 4 1999999000, msg 3 5]"
    by code_simp
  from only_newer_deleted [OF wf mem, of quietCallback] obtain res where
    r: "cleanUntilMessage channel 2 quietCallback demo = Some res"
    and safe: "\<forall>m\<in>set (deleteCalls (events res)). 2 < msg_id m \<and> 4 \<le> createdTimestamp m"
    and strict: "\<forall>m\<in>set (deleteCalls (afterFound 2 (events res))). 4 < createdTimestamp m"
    unfolding id by blast
  from ev r have d: "deleteCalls (events res) = [msg 5 2000000000, msg 4 1999999000, msg 3 5]"
    by (simp add: deletions_def)
  have "list_all (\<lambda>m. 2 < msg_id m \<and> 4 < createdTimestamp m) (deleteCalls (events res))"
    unfolding d by (simp add: msg_def)
  with wf mem r d show ?thesis by blast
qed

end
